theory Spec2Isabelle
  imports Main
begin

section \<open>The tokenizer of src/lib/tokenizer.js\<close>

text \<open>
  The source is a closure over the stylesheet text, the options and a handful of
  mutable variables.  The model keeps the variables that live across calls in a record
  and passes it explicitly.  A JavaScript string is a list of code units; here a code
  unit is a \<open>char\<close>, so the model covers texts whose code units are below 256.
  Offsets are JavaScript numbers that can become negative (\<open>indexOf\<close> returns \<open>-1\<close>,
  an interpolation span is not validated), so they are integers.
\<close>

subsection \<open>Character codes (lines 6-28)\<close>

abbreviation SINGLE_QUOTE :: char where "SINGLE_QUOTE \<equiv> CHR 0x27"
abbreviation DOUBLE_QUOTE :: char where "DOUBLE_QUOTE \<equiv> CHR 0x22"
abbreviation BACKSLASH :: char where "BACKSLASH \<equiv> CHR 0x5C"
abbreviation SLASH :: char where "SLASH \<equiv> CHR ''/''"
abbreviation NEWLINE :: char where "NEWLINE \<equiv> CHR 0x0A"
abbreviation SPACE :: char where "SPACE \<equiv> CHR '' ''"
abbreviation FEED :: char where "FEED \<equiv> CHR 0x0C"
abbreviation TAB :: char where "TAB \<equiv> CHR 0x09"
abbreviation CR :: char where "CR \<equiv> CHR 0x0D"
abbreviation OPEN_SQUARE :: char where "OPEN_SQUARE \<equiv> CHR ''[''"
abbreviation CLOSE_SQUARE :: char where "CLOSE_SQUARE \<equiv> CHR '']''"
abbreviation OPEN_PARENTHESES :: char where "OPEN_PARENTHESES \<equiv> CHR ''(''"
abbreviation CLOSE_PARENTHESES :: char where "CLOSE_PARENTHESES \<equiv> CHR '')''"
abbreviation OPEN_CURLY :: char where "OPEN_CURLY \<equiv> CHR ''{''"
abbreviation CLOSE_CURLY :: char where "CLOSE_CURLY \<equiv> CHR ''}''"
abbreviation SEMICOLON :: char where "SEMICOLON \<equiv> CHR '';''"
abbreviation ASTERISK :: char where "ASTERISK \<equiv> CHR ''*''"
abbreviation COLON :: char where "COLON \<equiv> CHR '':''"
abbreviation AT :: char where "AT \<equiv> CHR ''@''"
abbreviation DOLLAR_SIGN :: char where "DOLLAR_SIGN \<equiv> CHR ''$''"

subsection \<open>The string operations of JavaScript that the tokenizer calls\<close>

text \<open>\<open>s.charCodeAt(i)\<close>: the code unit at \<open>i\<close>, or NaN (here \<open>None\<close>) out of range.\<close>

definition charCodeAt :: "string \<Rightarrow> int \<Rightarrow> char option" where
  "charCodeAt s i = (if 0 \<le> i \<and> i < int (length s) then Some (s ! nat i) else None)"

text \<open>\<open>s.slice(a, b)\<close>: a negative index counts from the end, both are clamped to the
  string, and the result is empty when the start is not before the end.\<close>

definition slice :: "string \<Rightarrow> int \<Rightarrow> int \<Rightarrow> string" where
  "slice s a b =
     (let len = int (length s);
          from = (if a < 0 then max (len + a) 0 else min a len);
          to = (if b < 0 then max (len + b) 0 else min b len)
      in take (nat (to - from)) (drop (nat from) s))"

fun starts_with :: "string \<Rightarrow> string \<Rightarrow> bool" where
  "starts_with [] s = True"
| "starts_with (p # ps) [] = False"
| "starts_with (p # ps) (c # cs) = (p = c \<and> starts_with ps cs)"

text \<open>The first position, counted from \<open>k\<close>, at which a non-empty rest of the string
  satisfies \<open>P\<close>; \<open>-1\<close> when there is none.\<close>

fun search :: "(string \<Rightarrow> bool) \<Rightarrow> string \<Rightarrow> nat \<Rightarrow> int" where
  "search P [] k = -1"
| "search P (c # cs) k = (if P (c # cs) then int k else search P cs (Suc k))"

text \<open>\<open>s.indexOf(pat, fromIndex)\<close> for a non-empty \<open>pat\<close>: the start is clamped to the
  string.\<close>

definition indexOf :: "string \<Rightarrow> string \<Rightarrow> int \<Rightarrow> int" where
  "indexOf s pat fromIndex =
     (let k = nat (min (max fromIndex 0) (int (length s)))
      in search (starts_with pat) (drop k s) k)"

subsection \<open>The regular expressions (lines 30-33)\<close>

text \<open>Each of \<open>RE_AT_END\<close> and \<open>RE_WORD_END\<close> matches exactly one character, so a match
  is described by a predicate on the rest of the string at the match position.\<close>

definition RE_AT_END :: "string \<Rightarrow> bool" where
  "RE_AT_END r = (case r of [] \<Rightarrow> False | c # _ \<Rightarrow>
     c \<in> set [TAB, NEWLINE, FEED, CR, SPACE, DOUBLE_QUOTE, CHR ''#'', SINGLE_QUOTE,
       OPEN_PARENTHESES, CLOSE_PARENTHESES, SLASH, SEMICOLON, OPEN_SQUARE, BACKSLASH,
       CLOSE_SQUARE, OPEN_CURLY, CLOSE_CURLY])"

definition RE_WORD_END :: "string \<Rightarrow> bool" where
  "RE_WORD_END r = (case r of [] \<Rightarrow> False | c # cs \<Rightarrow>
     c \<in> set [TAB, NEWLINE, FEED, CR, SPACE, CHR ''!'', DOUBLE_QUOTE, CHR ''#'',
       SINGLE_QUOTE, OPEN_PARENTHESES, CLOSE_PARENTHESES, COLON, SEMICOLON, AT,
       OPEN_SQUARE, BACKSLASH, CLOSE_SQUARE, OPEN_CURLY, CLOSE_CURLY]
     \<or> (c = SLASH \<and> (case cs of [] \<Rightarrow> False | d # _ \<Rightarrow> d = ASTERISK)))"

text \<open>\<open>re.lastIndex = lastIndex; re.test(s)\<close> for a global expression: the value of
  \<open>re.lastIndex\<close> afterwards, one past the match, or 0 when nothing matches.\<close>

definition test_from :: "(string \<Rightarrow> bool) \<Rightarrow> string \<Rightarrow> int \<Rightarrow> int" where
  "test_from re s lastIndex =
     (let k = max lastIndex 0
      in if int (length s) < k then 0
         else (let i = search re (drop (nat k) s) (nat k) in if i = -1 then 0 else i + 1))"

text \<open>\<open>RE_BAD_BRACKET.test(content)\<close>: somewhere a character other than a line
  terminator is followed by a newline, a quote, an opening parenthesis, a slash or a
  backslash.\<close>

fun RE_BAD_BRACKET :: "string \<Rightarrow> bool" where
  "RE_BAD_BRACKET (a # b # cs) =
     ((a \<notin> set [NEWLINE, CR] \<and>
       b \<in> set [NEWLINE, DOUBLE_QUOTE, SINGLE_QUOTE, OPEN_PARENTHESES, SLASH, BACKSLASH])
      \<or> RE_BAD_BRACKET (b # cs))"
| "RE_BAD_BRACKET cs = False"

text \<open>\<open>RE_HEX_ESCAPE.test(s.charAt(i))\<close>: \<open>charAt\<close> is the empty string out of range.\<close>

definition is_hex :: "char \<Rightarrow> bool" where
  "is_hex c = (c \<in> set ''0123456789abcdefABCDEF'')"

definition RE_HEX_ESCAPE_at :: "string \<Rightarrow> int \<Rightarrow> bool" where
  "RE_HEX_ESCAPE_at s i = (case charCodeAt s i of None \<Rightarrow> False | Some c \<Rightarrow> is_hex c)"

subsection \<open>Tokens, spans, errors and the scanner state\<close>

text \<open>A token is the array \<open>[kind, text, ...offsets]\<close> of the source's \<open>Token\<close> type.\<close>

datatype token = Token (tkind: string) (ttext: string) (toffsets: "int list")

record interpolation =
  i_start :: int
  i_end :: int

text \<open>\<open>input.error(message, offset)\<close> builds the exception that \<open>unclosed\<close> throws.\<close>

datatype error = CssSyntaxError string int

text \<open>The variables of the closure that live across calls.  \<open>returned\<close> and \<open>buffer\<close> are
  arrays used as stacks: \<open>push\<close> appends at the end and \<open>pop\<close> takes the last element.
  \<open>currentToken\<close> is \<open>None\<close> while it is still undefined.\<close>

record tokenizer_state =
  css :: string
  ignore :: bool
  interpolations :: "interpolation list"
  pos :: int
  buffer :: "token list"
  returned :: "token list"
  currentToken :: "token option"

definition tokenizer :: "string \<Rightarrow> bool \<Rightarrow> interpolation list \<Rightarrow> tokenizer_state" where
  "tokenizer input ignoreErrors interps =
     \<lparr>css = input, ignore = ignoreErrors, interpolations = interps, pos = 0,
      buffer = [], returned = [], currentToken = None\<rparr>"

definition position :: "tokenizer_state \<Rightarrow> int" where
  "position st = pos st"

definition unclosed :: "tokenizer_state \<Rightarrow> string \<Rightarrow> error" where
  "unclosed st what = CssSyntaxError (''Unclosed '' @ what) (pos st)"

definition endOfFile :: "tokenizer_state \<Rightarrow> bool" where
  "endOfFile st = (returned st = [] \<and> int (length (css st)) \<le> pos st)"

text \<open>\<open>back(token)\<close> (the name \<open>back\<close> is reserved in Isabelle).\<close>

definition back_token :: "token \<Rightarrow> tokenizer_state \<Rightarrow> tokenizer_state" where
  "back_token t st = st\<lparr>returned := returned st @ [t]\<rparr>"

subsection \<open>The inner loops of \<open>nextToken\<close>\<close>

definition is_space_code :: "char option \<Rightarrow> bool" where
  "is_space_code code =
     (code = Some SPACE \<or> code = Some NEWLINE \<or> code = Some TAB \<or> code = Some CR \<or>
      code = Some FEED)"

lemma charCodeAt_Some_range: "charCodeAt s i = Some c \<Longrightarrow> 0 \<le> i \<and> i < int (length s)"
  by (simp add: charCodeAt_def split: if_splits)

lemma is_space_code_range: "is_space_code (charCodeAt s i) \<Longrightarrow> 0 \<le> i \<and> i < int (length s)"
  by (auto simp: is_space_code_def dest: charCodeAt_Some_range)

text \<open>Lines 115-124: \<open>do { next += 1; code = css.charCodeAt(next) } while (code is white space)\<close>;
  the value of \<open>next\<close> after the loop.\<close>

function space_loop :: "string \<Rightarrow> int \<Rightarrow> int" where
  "space_loop s next =
     (if is_space_code (charCodeAt s (next + 1)) then space_loop s (next + 1) else next + 1)"
  by pat_completeness auto
termination
  by (relation "measure (\<lambda>(s, next). nat (int (length s) - next))")
     (auto dest: is_space_code_range)

text \<open>Lines 186-189 and 230-233: \<open>while (css.charCodeAt(escapePos - 1) === BACKSLASH)
  { escapePos -= 1; escaped = !escaped }\<close>; the value of \<open>escaped\<close> after the loop.\<close>

function escaped_loop :: "string \<Rightarrow> int \<Rightarrow> bool \<Rightarrow> bool" where
  "escaped_loop s escapePos escaped =
     (if charCodeAt s (escapePos - 1) = Some BACKSLASH
      then escaped_loop s (escapePos - 1) (\<not> escaped) else escaped)"
  by pat_completeness auto
termination
  by (relation "measure (\<lambda>(s, escapePos, escaped). nat escapePos)")
     (auto dest: charCodeAt_Some_range)

text \<open>Lines 261-264: \<open>while (css.charCodeAt(next + 1) === BACKSLASH) { next += 1;
  escape = !escape }\<close>; the values of \<open>next\<close> and \<open>escape\<close> after the loop.\<close>

function backslash_loop :: "string \<Rightarrow> int \<Rightarrow> bool \<Rightarrow> int \<times> bool" where
  "backslash_loop s next escape =
     (if charCodeAt s (next + 1) = Some BACKSLASH
      then backslash_loop s (next + 1) (\<not> escape) else (next, escape))"
  by pat_completeness auto
termination
  by (relation "measure (\<lambda>(s, next, escape). nat (int (length s) - next))")
     (auto dest: charCodeAt_Some_range)

text \<open>Lines 280-282: \<open>while (RE_HEX_ESCAPE.test(css.charAt(next + 1))) { next += 1 }\<close>.\<close>

lemma RE_HEX_ESCAPE_at_range: "RE_HEX_ESCAPE_at s i \<Longrightarrow> 0 \<le> i \<and> i < int (length s)"
  by (auto simp: RE_HEX_ESCAPE_at_def split: option.splits dest: charCodeAt_Some_range)

function hex_loop :: "string \<Rightarrow> int \<Rightarrow> int" where
  "hex_loop s next = (if RE_HEX_ESCAPE_at s (next + 1) then hex_loop s (next + 1) else next)"
  by pat_completeness auto
termination
  by (relation "measure (\<lambda>(s, next). nat (int (length s) - next))")
     (auto dest: RE_HEX_ESCAPE_at_range)

text \<open>What \<open>indexOf\<close> returns: \<open>-1\<close>, or a position at or after the start of the search
  where the pattern begins.\<close>

lemma search_range:
  "search P r k = -1 \<or> (int k \<le> search P r k \<and> search P r k < int k + int (length r))"
proof (induction r arbitrary: k)
  case Nil
  show ?case by simp
next
  case (Cons c r)
  from Cons [of "Suc k"] show ?case by auto
qed

lemma indexOf_range:
  "indexOf s pat fromIndex = -1 \<or>
   (0 \<le> indexOf s pat fromIndex \<and> fromIndex \<le> indexOf s pat fromIndex \<and>
    indexOf s pat fromIndex < int (length s))"
proof -
  define k where "k = nat (min (max fromIndex 0) (int (length s)))"
  have eq: "indexOf s pat fromIndex = search (starts_with pat) (drop k s) k"
    by (simp add: indexOf_def k_def Let_def)
  have len: "int k + int (length (drop k s)) = int (length s)"
    by (simp add: k_def)
  have k: "fromIndex \<le> int k \<or> int (length s) \<le> int k"
    unfolding k_def by linarith
  from search_range [of "starts_with pat" "drop k s" k] show ?thesis
    unfolding eq using len k by linarith
qed

text \<open>Lines 215-234, the search for the closing quote:
  \<open>do { escaped = false; next = css.indexOf(quote, next + 1); if (next === -1) { if
  (ignore || ignoreUnclosed) { next = pos + 1; break } else unclosed('string') } ...
  } while (escaped)\<close>; the value of \<open>next\<close> after the loop, or the exception.\<close>

function string_loop :: "tokenizer_state \<Rightarrow> bool \<Rightarrow> char \<Rightarrow> int \<Rightarrow> error + int" where
  "string_loop st ignoreUnclosed quote next =
     (let next' = indexOf (css st) [quote] (next + 1)
      in if next' = -1
         then (if ignore st \<or> ignoreUnclosed then Inr (pos st + 1)
               else Inl (unclosed st ''string''))
         else if escaped_loop (css st) next' False
              then string_loop st ignoreUnclosed quote next'
              else Inr next')"
  by pat_completeness auto
termination
proof (relation "measure (\<lambda>(st, ig, quote, next). nat (int (length (css st)) - next))")
  show "wf (measure (\<lambda>(st, ig, quote, next). nat (int (length (css st)) - next)))"
    by simp
next
  fix st :: tokenizer_state and ignoreUnclosed :: bool and quote :: char and n x :: int
  assume x: "x = indexOf (css st) [quote] (n + 1)" and "x \<noteq> - 1"
  with indexOf_range [of "css st" "[quote]" "n + 1"]
  have "n + 1 \<le> x \<and> x < int (length (css st))"
    by simp
  then show "((st, ignoreUnclosed, quote, x), (st, ignoreUnclosed, quote, n))
      \<in> measure (\<lambda>(st, ig, quote, next). nat (int (length (css st)) - next))"
    by simp
qed

text \<open>Lines 160-190, the search for the closing parenthesis of a raw \<open>url(\<close> body.  With
  an interpolation span whose start is below \<open>-1\<close> the loop of the source can run for
  ever, which is the value \<open>None\<close> here.\<close>

partial_function (option) url_loop ::
  "tokenizer_state \<Rightarrow> bool \<Rightarrow> int \<Rightarrow> (error + int) option" where
  "url_loop st ignoreUnclosed next =
     (let next1 = indexOf (css st) '')'' (next + 1);
          next2 = (case find (\<lambda>item. i_start item < next1 \<and> next1 < i_end item)
                             (interpolations st) of
                     Some interpolation \<Rightarrow> indexOf (css st) '')'' (i_end interpolation)
                   | None \<Rightarrow> next1)
      in if next2 = -1
         then (if ignore st \<or> ignoreUnclosed then Some (Inr (pos st))
               else Some (Inl (unclosed st ''bracket'')))
         else if escaped_loop (css st) next2 False
              then url_loop st ignoreUnclosed next2
              else Some (Inr next2))"

subsection \<open>\<open>nextToken\<close>, one case of the switch after the other\<close>

text \<open>Every case leaves the new \<open>currentToken\<close> and the offset of the token's last
  character (in \<open>pos\<close>) in the state, or throws.\<close>

text \<open>Lines 108-129: white space.\<close>

definition nextToken_space :: "tokenizer_state \<Rightarrow> tokenizer_state" where
  "nextToken_space st =
     (let next = space_loop (css st) (pos st)
      in st\<lparr>currentToken := Some (Token ''space'' (slice (css st) (pos st) next) []),
            pos := next - 1\<rparr>)"

text \<open>Lines 131-142: the control characters.\<close>

definition is_control_code :: "char option \<Rightarrow> bool" where
  "is_control_code code =
     (code = Some OPEN_SQUARE \<or> code = Some CLOSE_SQUARE \<or> code = Some OPEN_CURLY \<or>
      code = Some CLOSE_CURLY \<or> code = Some COLON \<or> code = Some SEMICOLON \<or>
      code = Some CLOSE_PARENTHESES)"

definition nextToken_control :: "char \<Rightarrow> tokenizer_state \<Rightarrow> tokenizer_state" where
  "nextToken_control code st =
     (let controlChar = [code]
      in st\<lparr>currentToken := Some (Token controlChar controlChar [pos st])\<rparr>)"

text \<open>Lines 144-208: an opening parenthesis.  \<open>buffer.pop()\<close> happens before the mode is
  chosen.\<close>

definition nextToken_paren ::
  "bool \<Rightarrow> tokenizer_state \<Rightarrow> (error + tokenizer_state) option" where
  "nextToken_paren ignoreUnclosed st0 =
     (let prev = (if buffer st0 \<noteq> [] then ttext (last (buffer st0)) else []);
          st = st0\<lparr>buffer := butlast (buffer st0)\<rparr>;
          n = charCodeAt (css st) (pos st + 1)
      in if prev = ''url'' \<and> n \<noteq> Some SINGLE_QUOTE \<and> n \<noteq> Some DOUBLE_QUOTE \<and>
            n \<noteq> Some SPACE \<and> n \<noteq> Some NEWLINE \<and> n \<noteq> Some TAB \<and> n \<noteq> Some FEED \<and>
            n \<noteq> Some CR
         then (case url_loop st ignoreUnclosed (pos st) of
                 None \<Rightarrow> None
               | Some (Inl e) \<Rightarrow> Some (Inl e)
               | Some (Inr next) \<Rightarrow>
                   Some (Inr (st\<lparr>currentToken := Some (Token ''brackets''
                                  (slice (css st) (pos st) (next + 1)) [pos st, next]),
                                pos := next\<rparr>)))
         else (let next = indexOf (css st) '')'' (pos st + 1);
                   content = slice (css st) (pos st) (next + 1)
               in if next = -1 \<or> RE_BAD_BRACKET content
                  then Some (Inr (st\<lparr>currentToken := Some (Token ''('' ''('' [pos st])\<rparr>))
                  else Some (Inr (st\<lparr>currentToken :=
                                       Some (Token ''brackets'' content [pos st, next]),
                                     pos := next\<rparr>))))"

text \<open>Lines 210-239: a quote.\<close>

definition nextToken_quote ::
  "bool \<Rightarrow> char \<Rightarrow> tokenizer_state \<Rightarrow> error + tokenizer_state" where
  "nextToken_quote ignoreUnclosed code st =
     (let quote = (if code = SINGLE_QUOTE then SINGLE_QUOTE else DOUBLE_QUOTE)
      in case string_loop st ignoreUnclosed quote (pos st) of
           Inl e \<Rightarrow> Inl e
         | Inr next \<Rightarrow>
             Inr (st\<lparr>currentToken := Some (Token ''string''
                         (slice (css st) (pos st) (next + 1)) [pos st, next]),
                       pos := next\<rparr>))"

text \<open>Lines 241-255: an at-word.\<close>

definition nextToken_at :: "tokenizer_state \<Rightarrow> tokenizer_state" where
  "nextToken_at st =
     (let lastIndex = test_from RE_AT_END (css st) (pos st + 1);
          next = (if lastIndex = 0 then int (length (css st)) - 1 else lastIndex - 2)
      in st\<lparr>currentToken := Some (Token ''at-word''
                  (slice (css st) (pos st) (next + 1)) [pos st, next]),
            pos := next\<rparr>)"

text \<open>Lines 257-294: a backslash.\<close>

definition nextToken_backslash :: "tokenizer_state \<Rightarrow> tokenizer_state" where
  "nextToken_backslash st =
     (let (next0, escape) = backslash_loop (css st) (pos st) True;
          code = charCodeAt (css st) (next0 + 1);
          next =
            (if escape \<and> code \<noteq> Some SLASH \<and> code \<noteq> Some SPACE \<and> code \<noteq> Some NEWLINE \<and>
                code \<noteq> Some TAB \<and> code \<noteq> Some CR \<and> code \<noteq> Some FEED
             then (let next1 = next0 + 1
                   in if RE_HEX_ESCAPE_at (css st) next1
                      then (let next2 = hex_loop (css st) next1
                            in if charCodeAt (css st) (next2 + 1) = Some SPACE
                               then next2 + 1 else next2)
                      else next1)
             else next0)
      in st\<lparr>currentToken := Some (Token ''word''
                  (slice (css st) (pos st) (next + 1)) [pos st, next]),
            pos := next\<rparr>)"

text \<open>Lines 296-348: the default case.  When the character is a dollar sign and no span
  starts at \<open>pos\<close>, nothing is assigned.\<close>

definition nextToken_default ::
  "bool \<Rightarrow> char option \<Rightarrow> tokenizer_state \<Rightarrow> error + tokenizer_state" where
  "nextToken_default ignoreUnclosed code st =
     (if code = Some DOLLAR_SIGN
      then (case find (\<lambda>item. i_start item = pos st) (interpolations st) of
              Some interpolation \<Rightarrow>
                (let next = i_end interpolation;
                     tok = Token ''word'' (slice (css st) (pos st) (next + 1)) [pos st, next]
                 in Inr (st\<lparr>currentToken := Some tok, buffer := buffer st @ [tok],
                            pos := next\<rparr>))
            | None \<Rightarrow> Inr st)
      else if code = Some SLASH \<and> charCodeAt (css st) (pos st + 1) = Some ASTERISK
      then (let next0 = indexOf (css st) ''*/'' (pos st + 2) + 1
            in case (if next0 = 0
                     then (if ignore st \<or> ignoreUnclosed then Inr (int (length (css st)))
                           else Inl (unclosed st ''comment''))
                     else Inr next0) of
                 Inl e \<Rightarrow> Inl e
               | Inr next \<Rightarrow>
                   Inr (st\<lparr>currentToken := Some (Token ''comment''
                               (slice (css st) (pos st) (next + 1)) [pos st, next]),
                             pos := next\<rparr>))
      else (let lastIndex = test_from RE_WORD_END (css st) (pos st + 1);
                next0 = (if lastIndex = 0 then int (length (css st)) - 1 else lastIndex - 2);
                next = (case find (\<lambda>item. pos st \<le> i_start item \<and> i_start item \<le> next0 + 1)
                                  (interpolations st) of
                          Some interpolation \<Rightarrow> i_end interpolation
                        | None \<Rightarrow> next0);
                tok = Token ''word'' (slice (css st) (pos st) (next + 1)) [pos st, next]
            in Inr (st\<lparr>currentToken := Some tok, buffer := buffer st @ [tok], pos := next\<rparr>)))"

text \<open>Lines 351-353: \<open>pos++; return currentToken\<close>.\<close>

definition finish :: "error + tokenizer_state \<Rightarrow> error + token option \<times> tokenizer_state" where
  "finish r = (case r of Inl e \<Rightarrow> Inl e
               | Inr st \<Rightarrow> Inr (currentToken st, st\<lparr>pos := pos st + 1\<rparr>))"

text \<open>Lines 94-354.  The result is \<open>None\<close> when the call does not return, \<open>Some (Inl e)\<close>
  when it throws \<open>e\<close>, and otherwise the returned value (\<open>None\<close> for undefined) with the
  state after the call.  The argument is \<open>opts ? opts.ignoreUnclosed : false\<close>.\<close>

definition nextToken ::
  "bool \<Rightarrow> tokenizer_state \<Rightarrow> (error + token option \<times> tokenizer_state) option" where
  "nextToken ignoreUnclosed st =
     (if returned st \<noteq> []
      then Some (Inr (Some (last (returned st)), st\<lparr>returned := butlast (returned st)\<rparr>))
      else if int (length (css st)) \<le> pos st then Some (Inr (None, st))
      else (let code = charCodeAt (css st) (pos st)
            in if is_space_code code then Some (finish (Inr (nextToken_space st)))
               else if is_control_code code
               then Some (finish (Inr (nextToken_control (the code) st)))
               else if code = Some OPEN_PARENTHESES
               then map_option finish (nextToken_paren ignoreUnclosed st)
               else if code = Some SINGLE_QUOTE \<or> code = Some DOUBLE_QUOTE
               then Some (finish (nextToken_quote ignoreUnclosed (the code) st))
               else if code = Some AT then Some (finish (Inr (nextToken_at st)))
               else if code = Some BACKSLASH then Some (finish (Inr (nextToken_backslash st)))
               else Some (finish (nextToken_default ignoreUnclosed code st))))"

subsection \<open>The consumer's loop\<close>

text \<open>The parser that drives the tokenizer is not part of the source file.  The claims
  speak of calling \<open>nextToken\<close> until \<open>endOfFile\<close>; \<open>drain\<close> is that loop, with the values
  returned so far in \<open>acc\<close>.  It is \<open>None\<close> when a call does not return or the loop does
  not end.\<close>

partial_function (option) drain ::
  "bool \<Rightarrow> token option list \<Rightarrow> tokenizer_state \<Rightarrow>
   (error + token option list \<times> tokenizer_state) option" where
  "drain ignoreUnclosed acc st =
     (if endOfFile st then Some (Inr (acc, st))
      else (case nextToken ignoreUnclosed st of
              None \<Rightarrow> None
            | Some (Inl e) \<Rightarrow> Some (Inl e)
            | Some (Inr (t, st')) \<Rightarrow> drain ignoreUnclosed (acc @ [t]) st'))"

text \<open>The text of the values returned: undefined contributes nothing.\<close>

definition texts :: "token option list \<Rightarrow> string" where
  "texts ts = concat (map (\<lambda>t. case t of None \<Rightarrow> [] | Some tok \<Rightarrow> ttext tok) ts)"

text \<open>The loop equations are unfolded by hand in the proofs, and are code equations
  for evaluation.\<close>

declare space_loop.simps [simp del]
declare escaped_loop.simps [simp del]
declare backslash_loop.simps [simp del]
declare hex_loop.simps [simp del]
declare string_loop.simps [simp del]
declare url_loop.simps [code]
declare drain.simps [code]

section \<open>Notions used in the statements\<close>

text \<open>The kinds of the single-character control tokens.\<close>

definition control_kinds :: "string list" where
  "control_kinds = [''('', '')'', ''['', '']'', ''{'', ''}'', '':'', '';'']"

text \<open>The one space that a hexadecimal escape takes with it.\<close>

definition trailing_space :: "string \<Rightarrow> string" where
  "trailing_space rest = (case rest of [] \<Rightarrow> [] | c # _ \<Rightarrow> if c = SPACE then [SPACE] else [])"

text \<open>Spans as the caller is meant to supply them: offsets into the text, the start not
  after the end.\<close>

definition spans_ok :: "interpolation list \<Rightarrow> bool" where
  "spans_ok spans = list_all (\<lambda>item. 0 \<le> i_start item \<and> i_start item \<le> i_end item) spans"

text \<open>One round of the search of \<open>url_loop\<close>: the candidate after the spans have been
  consulted.\<close>

definition url_next :: "tokenizer_state \<Rightarrow> int \<Rightarrow> int" where
  "url_next st n =
     (let next1 = indexOf (css st) '')'' (n + 1)
      in case find (\<lambda>item. i_start item < next1 \<and> next1 < i_end item) (interpolations st) of
           Some interpolation \<Rightarrow> indexOf (css st) '')'' (i_end interpolation)
         | None \<Rightarrow> next1)"

text \<open>\<open>scanned st st1\<close>: the case of the switch that led from \<open>st\<close> to \<open>st1\<close> assigned a
  token whose text is the source from the old cursor up to and including the new one, and
  changed neither the text, the options nor the pushback stack.\<close>

definition scanned :: "tokenizer_state \<Rightarrow> tokenizer_state \<Rightarrow> bool" where
  "scanned st st1 =
     (css st1 = css st \<and> ignore st1 = ignore st \<and> interpolations st1 = interpolations st \<and>
      returned st1 = returned st \<and> pos st \<le> pos st1 \<and>
      (case currentToken st1 of None \<Rightarrow> False
       | Some t \<Rightarrow> ttext t = slice (css st) (pos st) (pos st1 + 1)))"

text \<open>The condition of lines 148-157 under which an opening parenthesis starts a raw URL
  body: the last word on \<open>buffer\<close> is \<open>url\<close> and the next character is neither a quote nor
  white space.  The two results of the case, as results of \<open>nextToken\<close>.\<close>

definition url_mode :: "tokenizer_state \<Rightarrow> bool" where
  "url_mode st =
     (buffer st \<noteq> [] \<and> ttext (last (buffer st)) = ''url'' \<and>
      charCodeAt (css st) (pos st + 1) \<noteq> Some SINGLE_QUOTE \<and>
      charCodeAt (css st) (pos st + 1) \<noteq> Some DOUBLE_QUOTE \<and>
      charCodeAt (css st) (pos st + 1) \<noteq> Some SPACE \<and>
      charCodeAt (css st) (pos st + 1) \<noteq> Some NEWLINE \<and>
      charCodeAt (css st) (pos st + 1) \<noteq> Some TAB \<and>
      charCodeAt (css st) (pos st + 1) \<noteq> Some FEED \<and>
      charCodeAt (css st) (pos st + 1) \<noteq> Some CR)"

definition url_body_result ::
  "bool \<Rightarrow> tokenizer_state \<Rightarrow> (error + token option \<times> tokenizer_state) option" where
  "url_body_result ig st =
     (case url_loop (st\<lparr>buffer := butlast (buffer st)\<rparr>) ig (pos st) of
        None \<Rightarrow> None
      | Some (Inl e) \<Rightarrow> Some (Inl e)
      | Some (Inr e) \<Rightarrow>
          Some (Inr (Some (Token ''brackets'' (slice (css st) (pos st) (e + 1)) [pos st, e]),
            st\<lparr>buffer := butlast (buffer st),
               currentToken := Some (Token ''brackets''
                 (slice (css st) (pos st) (e + 1)) [pos st, e]),
               pos := e + 1\<rparr>)))"

definition plain_paren_result :: "tokenizer_state \<Rightarrow> token option \<times> tokenizer_state" where
  "plain_paren_result st =
     (let c = indexOf (css st) '')'' (pos st + 1);
          content = slice (css st) (pos st) (c + 1)
      in if c = -1 \<or> RE_BAD_BRACKET content
         then (Some (Token ''('' ''('' [pos st]),
               st\<lparr>buffer := butlast (buffer st),
                  currentToken := Some (Token ''('' ''('' [pos st]), pos := pos st + 1\<rparr>)
         else (Some (Token ''brackets'' content [pos st, c]),
               st\<lparr>buffer := butlast (buffer st),
                  currentToken := Some (Token ''brackets'' content [pos st, c]),
                  pos := c + 1\<rparr>))"

text \<open>The three unclosed constructs: how each opens at the cursor, and the token that the
  permissive mode puts in the place of the error.\<close>

definition unclosed_kinds :: "string list" where
  "unclosed_kinds = [''string'', ''bracket'', ''comment'']"

definition opening_delimiter :: "tokenizer_state \<Rightarrow> string \<Rightarrow> bool" where
  "opening_delimiter st what =
     (if what = ''string''
      then charCodeAt (css st) (pos st) = Some SINGLE_QUOTE \<or>
           charCodeAt (css st) (pos st) = Some DOUBLE_QUOTE
      else if what = ''bracket'' then charCodeAt (css st) (pos st) = Some OPEN_PARENTHESES
      else charCodeAt (css st) (pos st) = Some SLASH \<and>
           charCodeAt (css st) (pos st + 1) = Some ASTERISK)"

definition best_effort :: "tokenizer_state \<Rightarrow> string \<Rightarrow> token" where
  "best_effort st what =
     (if what = ''comment''
      then Token ''comment'' (drop (nat (pos st)) (css st)) [pos st, int (length (css st))]
      else if what = ''string''
      then Token ''string'' (take 2 (drop (nat (pos st)) (css st))) [pos st, pos st + 1]
      else Token ''brackets'' ''('' [pos st, pos st])"

text \<open>States for the examples: after the word \<open>url\<close> and the space of \<open>url (a/b)\<close>, and
  after the word \<open>url\<close> of \<open>url(a\<close>.\<close>

definition url_space_example :: tokenizer_state where
  "url_space_example =
     \<lparr>css = ''url (a/b)'', ignore = False, interpolations = [], pos = 4,
      buffer = [Token ''word'' ''url'' [0, 2]], returned = [],
      currentToken = Some (Token ''space'' '' '' [])\<rparr>"

definition url_open_example :: tokenizer_state where
  "url_open_example =
     \<lparr>css = ''url(a'', ignore = False, interpolations = [], pos = 3,
      buffer = [Token ''word'' ''url'' [0, 2]], returned = [],
      currentToken = Some (Token ''word'' ''url'' [0, 2])\<rparr>"

text \<open>A character is escaped when an odd number of backslashes stands immediately before
  it.  A construct opened at \<open>p\<close> has no terminator \<open>c\<close> when every \<open>c\<close> after \<open>p\<close> is
  escaped, and a comment opened at \<open>p\<close> has no end when \<open>*/\<close> occurs nowhere from \<open>p + 2\<close>
  on.\<close>

definition escaped_at :: "string \<Rightarrow> nat \<Rightarrow> bool" where
  "escaped_at s i = odd (length (takeWhile (\<lambda>c. c = BACKSLASH) (rev (take i s))))"

definition no_terminator :: "string \<Rightarrow> char \<Rightarrow> int \<Rightarrow> bool" where
  "no_terminator s c p =
     list_all (\<lambda>i. s ! i = c \<longrightarrow> escaped_at s i) [nat (p + 1) ..< length s]"

definition no_comment_end :: "string \<Rightarrow> int \<Rightarrow> bool" where
  "no_comment_end s p =
     list_all (\<lambda>i. \<not> starts_with ''*/'' (drop i s)) [nat (p + 2) ..< length s]"

text \<open>The unclosed construct \<open>what\<close> at the cursor: a quote with no terminator, the opening
  parenthesis of a raw URL body with no terminator, or \<open>/*\<close> with no end.\<close>

definition unclosed_construct :: "tokenizer_state \<Rightarrow> string \<Rightarrow> bool" where
  "unclosed_construct st what =
     ((what = ''string'' \<and>
        ((charCodeAt (css st) (pos st) = Some SINGLE_QUOTE \<and>
          no_terminator (css st) SINGLE_QUOTE (pos st)) \<or>
         (charCodeAt (css st) (pos st) = Some DOUBLE_QUOTE \<and>
          no_terminator (css st) DOUBLE_QUOTE (pos st)))) \<or>
      (what = ''bracket'' \<and> charCodeAt (css st) (pos st) = Some OPEN_PARENTHESES \<and>
         url_mode st \<and> no_terminator (css st) CLOSE_PARENTHESES (pos st)) \<or>
      (what = ''comment'' \<and> charCodeAt (css st) (pos st) = Some SLASH \<and>
         charCodeAt (css st) (pos st + 1) = Some ASTERISK \<and>
         no_comment_end (css st) (pos st)))"

text \<open>\<open>continues later st\<close>: the calls made from \<open>st\<close> on, each with \<open>ignoreUnclosed = later\<close>,
  come to an end: at \<open>endOfFile()\<close>, or, in the strict mode only, at the exception of an
  unclosed construct at or after the cursor of \<open>st\<close>.\<close>

definition continues :: "bool \<Rightarrow> tokenizer_state \<Rightarrow> bool" where
  "continues later st =
     (case drain later [] st of
        None \<Rightarrow> False
      | Some (Inl (CssSyntaxError msg p)) \<Rightarrow>
          \<not> (ignore st \<or> later) \<and> pos st \<le> p \<and>
          msg \<in> set (map (\<lambda>what. ''Unclosed '' @ what) unclosed_kinds)
      | Some (Inr (ts, stf)) \<Rightarrow> endOfFile stf)"

text \<open>\<open>word_start st\<close>: the cursor is at the start of a bare word or of an interpolation,
  the two cases of the switch that push their token on \<open>buffer\<close>: the character is not
  white space, a control character, an opening parenthesis, a quote, an at sign or a
  backslash; a dollar sign has a span starting at it; a slash is not followed by an
  asterisk.\<close>

definition word_start :: "tokenizer_state \<Rightarrow> bool" where
  "word_start st =
     (let code = charCodeAt (css st) (pos st)
      in pos st < int (length (css st)) \<and> \<not> is_space_code code \<and> \<not> is_control_code code \<and>
         code \<noteq> Some OPEN_PARENTHESES \<and> code \<noteq> Some SINGLE_QUOTE \<and>
         code \<noteq> Some DOUBLE_QUOTE \<and> code \<noteq> Some AT \<and> code \<noteq> Some BACKSLASH \<and>
         (if code = Some DOLLAR_SIGN
          then find (\<lambda>item. i_start item = pos st) (interpolations st) \<noteq> None
          else \<not> (code = Some SLASH \<and> charCodeAt (css st) (pos st + 1) = Some ASTERISK)))"

text \<open>\<open>quiet_run igs st\<close>: the state after one call for each flag of \<open>igs\<close>, when
  none of the calls throws and none is made at an opening parenthesis or at the start of
  a bare word or of an interpolation.\<close>

fun quiet_run :: "bool list \<Rightarrow> tokenizer_state \<Rightarrow> tokenizer_state option" where
  "quiet_run [] st = Some st"
| "quiet_run (ig # igs) st =
     (if returned st = [] \<and> charCodeAt (css st) (pos st) \<noteq> Some OPEN_PARENTHESES \<and>
         \<not> word_start st
      then (case nextToken ig st of
              Some (Inr (r, st1)) \<Rightarrow> quiet_run igs st1
            | _ \<Rightarrow> None)
      else None)"

text \<open>Spans that lie inside the text.\<close>

definition spans_in_text :: "tokenizer_state \<Rightarrow> bool" where
  "spans_in_text st =
     list_all (\<lambda>item. 0 \<le> i_start item \<and> i_start item \<le> i_end item \<and>
                       i_end item < int (length (css st))) (interpolations st)"

text \<open>The tokens whose end offset is the length of the text, one past its last character:
  an odd run of backslashes that ends the text, and the best-effort \<open>string\<close> and
  \<open>comment\<close> tokens of the permissive mode.\<close>

definition past_the_end :: "tokenizer_state \<Rightarrow> bool \<Rightarrow> token \<Rightarrow> bool" where
  "past_the_end st ig t =
     ((tkind t = ''word'' \<and> odd (length (ttext t)) \<and> list_all (\<lambda>c. c = BACKSLASH) (ttext t)) \<or>
      (tkind t = ''string'' \<and> (ignore st \<or> ig) \<and> length (ttext t) = 1) \<or>
      (tkind t = ''comment'' \<and> (ignore st \<or> ig)))"

text \<open>\<open>token_extent st ig t st1\<close>: the token \<open>t\<close> returned by the call that led from \<open>st\<close> to
  \<open>st1\<close> has the source between the two cursors as its text; a \<open>space\<close> token carries no
  offset, a control token carries the old cursor, and every other token carries the old
  cursor and the offset before the new cursor, which is the offset of the last character
  of the token unless the token is one of \<open>past_the_end\<close>.\<close>

definition token_extent :: "tokenizer_state \<Rightarrow> bool \<Rightarrow> token \<Rightarrow> tokenizer_state \<Rightarrow> bool" where
  "token_extent st ig t st' =
     (ttext t = slice (css st) (pos st) (pos st') \<and> pos st < pos st' \<and>
      (if tkind t = ''space'' then toffsets t = [] \<and> pos st' \<le> int (length (css st))
       else if tkind t \<in> set control_kinds then toffsets t = [pos st] \<and> pos st' = pos st + 1
       else toffsets t = [pos st, pos st' - 1] \<and>
            (pos st' \<le> int (length (css st)) \<or>
             (pos st' = int (length (css st)) + 1 \<and> past_the_end st ig t))))"

text \<open>The same for the state \<open>st1\<close> that a case of the switch leaves, before \<open>pos++\<close>.\<close>

definition extent1 :: "tokenizer_state \<Rightarrow> bool \<Rightarrow> tokenizer_state \<Rightarrow> bool" where
  "extent1 st ig st1 =
     (case currentToken st1 of
        None \<Rightarrow> False
      | Some t \<Rightarrow>
          (if tkind t = ''space'' then toffsets t = [] \<and> pos st1 < int (length (css st))
           else if tkind t \<in> set control_kinds then toffsets t = [pos st] \<and> pos st1 = pos st
           else toffsets t = [pos st, pos st1] \<and>
                (pos st1 < int (length (css st)) \<or>
                 (pos st1 = int (length (css st)) \<and> past_the_end st ig t))))"

section \<open>Facts about the string operations\<close>

lemma charCodeAt_in_set: "charCodeAt s p = Some c \<Longrightarrow> c \<in> set s"
  by (auto simp: charCodeAt_def split: if_splits)

lemma charCodeAt_at:
  "i = int (length pre) \<Longrightarrow>
   charCodeAt (pre @ post) i = (case post of [] \<Rightarrow> None | c # _ \<Rightarrow> Some c)"
  by (cases post) (simp_all add: charCodeAt_def)

lemma slice_append:
  "s = pre @ mid @ post \<Longrightarrow> a = int (length pre) \<Longrightarrow> b = a + int (length mid) \<Longrightarrow>
   slice s a b = mid"
  by (simp add: slice_def Let_def)

lemma slice_single: "charCodeAt s p = Some c \<Longrightarrow> slice s p (p + 1) = [c]"
  by (auto simp: charCodeAt_def slice_def Let_def take_Suc_conv_app_nth nat_add_distrib
      hd_drop_conv_nth take_Suc split: if_splits)

lemma slice_add:
  "0 \<le> a \<Longrightarrow> a \<le> b \<Longrightarrow> b \<le> c \<Longrightarrow> slice s a b @ slice s b c = slice s a c"
proof -
  assume a: "0 \<le> a" "a \<le> b" "b \<le> c"
  define a' b' c' where "a' = nat (min a (int (length s)))" and "b' = nat (min b (int (length s)))"
    and "c' = nat (min c (int (length s)))"
  from a have le: "a' \<le> b'" "b' \<le> c'" by (auto simp: a'_def b'_def c'_def)
  from a have sl: "slice s a b = take (b' - a') (drop a' s)" "slice s b c = take (c' - b') (drop b' s)"
    "slice s a c = take (c' - a') (drop a' s)"
    by (auto simp: slice_def Let_def a'_def b'_def c'_def nat_diff_distrib)
  have "take ((b' - a') + (c' - b')) (drop a' s) =
      take (b' - a') (drop a' s) @ take (c' - b') (drop (b' - a') (drop a' s))"
    by (rule take_add)
  with le have "take (c' - a') (drop a' s) = take (b' - a') (drop a' s) @ take (c' - b') (drop b' s)"
    by simp
  with sl show ?thesis by simp
qed

lemma slice_all: "int (length s) \<le> b \<Longrightarrow> slice s 0 b = s"
  by (simp add: slice_def Let_def)

lemma slice_take_drop:
  "0 \<le> a \<Longrightarrow> a \<le> b \<Longrightarrow> slice s a b = take (nat (b - a)) (drop (nat a) s)"
  by (auto simp: slice_def Let_def min_def nat_diff_distrib)

lemma find_SomeD: "find P xs = Some x \<Longrightarrow> P x \<and> x \<in> set xs"
  by (induction xs) (auto split: if_splits)

lemma spans_okD:
  "spans_ok spans \<Longrightarrow> find P spans = Some it \<Longrightarrow> P it \<and> 0 \<le> i_start it \<and> i_start it \<le> i_end it"
  by (auto simp: spans_ok_def list_all_iff dest: find_SomeD)

lemma search_found:
  "search P r k \<noteq> -1 \<Longrightarrow> P (drop (nat (search P r k) - k) r)"
proof (induction r arbitrary: k)
  case Nil
  then show ?case by simp
next
  case (Cons c r)
  show ?case
  proof (cases "P (c # r)")
    case True
    then show ?thesis by simp
  next
    case False
    with Cons.prems have ne: "search P r (Suc k) \<noteq> -1" by simp
    from search_range [of P r "Suc k"] ne have "int (Suc k) \<le> search P r (Suc k)" by simp
    then have "nat (search P r (Suc k)) - k = Suc (nat (search P r (Suc k)) - Suc k)"
      by linarith
    with Cons.IH [OF ne] False show ?thesis by simp
  qed
qed

lemma indexOf_found:
  assumes "indexOf s [c] k \<noteq> -1"
  shows "charCodeAt s (indexOf s [c] k) = Some c"
proof -
  define m where "m = nat (min (max k 0) (int (length s)))"
  define i where "i = search (starts_with [c]) (drop m s) m"
  have eq: "indexOf s [c] k = i"
    by (simp add: indexOf_def i_def m_def Let_def)
  from assms eq have ne: "i \<noteq> -1" by simp
  from search_range [of "starts_with [c]" "drop m s" m] ne
  have r: "int m \<le> i" "i < int m + int (length (drop m s))"
    by (simp_all add: i_def)
  from search_found [of "starts_with [c]" "drop m s" m] ne
  have "starts_with [c] (drop (nat i - m) (drop m s))"
    by (simp add: i_def)
  with r have sw: "starts_with [c] (drop (nat i) s)"
    by simp
  from r have lt: "nat i < length s" by simp
  then have "drop (nat i) s = s ! nat i # drop (Suc (nat i)) s"
    by (simp add: Cons_nth_drop_Suc)
  with sw have "s ! nat i = c" by simp
  with r lt show ?thesis
    unfolding eq by (simp add: charCodeAt_def)
qed

lemma test_from_range:
  "test_from re s k = 0 \<or> (k + 1 \<le> test_from re s k \<and> test_from re s k \<le> int (length s))"
proof (cases "int (length s) < max k 0")
  case True
  then have "test_from re s k = 0"
    unfolding test_from_def Let_def by (simp only: if_True)
  then show ?thesis by simp
next
  case False
  define m where "m = nat (max k 0)"
  from False have len: "int m + int (length (drop m s)) = int (length s)" "k \<le> int m"
    by (auto simp: m_def)
  from search_range [of re "drop m s" m] len False show ?thesis
    by (auto simp: test_from_def Let_def m_def [symmetric])
qed

section \<open>Facts about the loops\<close>

lemma space_loop_ge: "n + 1 \<le> space_loop s n"
proof (induction s n rule: space_loop.induct)
  case (1 s n)
  show ?case
  proof (cases "is_space_code (charCodeAt s (n + 1))")
    case True
    with "1" have "n + 1 + 1 \<le> space_loop s (n + 1)" by simp
    with True show ?thesis by (simp add: space_loop.simps [of s n])
  next
    case False
    then show ?thesis by (simp add: space_loop.simps [of s n])
  qed
qed

lemma backslash_loop_ge: "n \<le> fst (backslash_loop s n e)"
proof (induction s n e rule: backslash_loop.induct)
  case (1 s n e)
  show ?case
  proof (cases "charCodeAt s (n + 1) = Some BACKSLASH")
    case True
    with "1" have "n + 1 \<le> fst (backslash_loop s (n + 1) (\<not> e))" by simp
    with True show ?thesis by (simp add: backslash_loop.simps [of s n])
  next
    case False
    then show ?thesis by (simp add: backslash_loop.simps [of s n])
  qed
qed

lemma hex_loop_ge: "n \<le> hex_loop s n"
proof (induction s n rule: hex_loop.induct)
  case (1 s n)
  show ?case
  proof (cases "RE_HEX_ESCAPE_at s (n + 1)")
    case True
    with "1" have "n + 1 \<le> hex_loop s (n + 1)" by simp
    with True show ?thesis by (simp add: hex_loop.simps [of s n])
  next
    case False
    then show ?thesis by (simp add: hex_loop.simps [of s n])
  qed
qed

lemma backslash_loop_run:
  assumes "case post of [] \<Rightarrow> True | c # _ \<Rightarrow> c \<noteq> BACKSLASH"
  shows "backslash_loop (pre @ c0 # replicate j BACKSLASH @ post) (int (length pre)) e =
         (int (length pre) + int j, if even j then e else \<not> e)"
proof (induction j arbitrary: pre c0 e)
  case 0
  have "charCodeAt (pre @ c0 # post) (int (length pre) + 1) \<noteq> Some BACKSLASH"
    using assms charCodeAt_at [of "int (length pre) + 1" "pre @ [c0]" post]
    by (auto split: list.splits)
  then show ?case
    by (simp add: backslash_loop.simps [of _ "int (length pre)"])
next
  case (Suc j)
  have "charCodeAt (pre @ c0 # replicate (Suc j) BACKSLASH @ post) (int (length pre) + 1) = Some BACKSLASH"
    using charCodeAt_at [of "int (length pre) + 1" "pre @ [c0]" "replicate (Suc j) BACKSLASH @ post"]
    by simp
  moreover have "backslash_loop ((pre @ [c0]) @ BACKSLASH # replicate j BACKSLASH @ post)
       (int (length (pre @ [c0]))) (\<not> e) = (int (length (pre @ [c0])) + int j, if even j then \<not> e else \<not> \<not> e)"
    by (rule Suc.IH)
  ultimately show ?case
    by (simp add: backslash_loop.simps [of _ "int (length pre)"] add.commute)
qed

lemma hex_loop_run:
  assumes "case post of [] \<Rightarrow> True | c # _ \<Rightarrow> \<not> is_hex c"
  shows "list_all is_hex hs \<Longrightarrow>
         hex_loop (pre @ c0 # hs @ post) (int (length pre)) = int (length pre) + int (length hs)"
proof (induction hs arbitrary: pre c0)
  case Nil
  have "\<not> RE_HEX_ESCAPE_at (pre @ c0 # post) (int (length pre) + 1)"
    using assms charCodeAt_at [of "int (length pre) + 1" "pre @ [c0]" post]
    by (auto simp: RE_HEX_ESCAPE_at_def split: list.splits)
  then show ?case
    by (simp add: hex_loop.simps [of _ "int (length pre)"])
next
  case (Cons h hs)
  have "RE_HEX_ESCAPE_at (pre @ c0 # (h # hs) @ post) (int (length pre) + 1)"
    using Cons.prems charCodeAt_at [of "int (length pre) + 1" "pre @ [c0]" "(h # hs) @ post"]
    by (simp add: RE_HEX_ESCAPE_at_def)
  moreover have "hex_loop ((pre @ [c0]) @ h # hs @ post) (int (length (pre @ [c0]))) =
      int (length (pre @ [c0])) + int (length hs)"
    using Cons.prems by (intro Cons.IH) simp
  ultimately show ?case
    by (simp add: hex_loop.simps [of _ "int (length pre)"] add.commute)
qed

lemma string_loop_ge:
  "string_loop st ig q n = Inr e \<Longrightarrow> pos st \<le> n \<Longrightarrow> pos st + 1 \<le> e"
proof (induction st ig q n rule: string_loop.induct)
  case (1 st ig q n)
  define n' where "n' = indexOf (css st) [q] (n + 1)"
  from indexOf_range [of "css st" "[q]" "n + 1"] have r: "n' = -1 \<or> n + 1 \<le> n'"
    by (auto simp: n'_def)
  show ?case
  proof (cases "n' = -1")
    case True
    with "1.prems" show ?thesis
      by (simp add: string_loop.simps [of st ig q n] n'_def [symmetric] split: if_splits)
  next
    case False
    show ?thesis
    proof (cases "escaped_loop (css st) n' False")
      case True
      with False "1.prems" have "string_loop st ig q n' = Inr e"
        by (simp add: string_loop.simps [of st ig q n] n'_def [symmetric])
      moreover from r False "1.prems" have "pos st \<le> n'" by simp
      ultimately show ?thesis
        using "1.IH" [of n'] False True by (simp add: n'_def)
    next
      case esc: False
      with False "1.prems" have "e = n'"
        by (simp add: string_loop.simps [of st ig q n] n'_def [symmetric])
      with r False "1.prems" show ?thesis by simp
    qed
  qed
qed

lemma string_loop_Inl:
  "string_loop st ig q n = Inl e \<Longrightarrow> e = unclosed st ''string'' \<and> \<not> (ignore st \<or> ig)"
proof (induction st ig q n rule: string_loop.induct)
  case (1 st ig q n)
  define n' where "n' = indexOf (css st) [q] (n + 1)"
  from "1.prems" have *: "(if n' = -1
         then (if ignore st \<or> ig then Inr (pos st + 1) else Inl (unclosed st ''string''))
         else if escaped_loop (css st) n' False then string_loop st ig q n' else Inr n') = Inl e"
    by (simp add: string_loop.simps [of st ig q n] n'_def [symmetric])
  show ?case
  proof (cases "n' \<noteq> -1 \<and> escaped_loop (css st) n' False")
    case True
    with * have "string_loop st ig q n' = Inl e" by simp
    with "1.IH" [of n'] True show ?thesis by (simp add: n'_def)
  next
    case False
    with * show ?thesis by (auto split: if_splits)
  qed
qed

lemma string_loop_degrade:
  "string_loop st ig q n = Inl e \<Longrightarrow> css st2 = css st \<Longrightarrow> pos st2 = pos st \<Longrightarrow>
   ignore st2 \<or> ig2 \<Longrightarrow> string_loop st2 ig2 q n = Inr (pos st + 1)"
proof (induction st ig q n rule: string_loop.induct)
  case (1 st ig q n)
  define n' where "n' = indexOf (css st) [q] (n + 1)"
  from "1.prems"(1) have *: "(if n' = -1
         then (if ignore st \<or> ig then Inr (pos st + 1) else Inl (unclosed st ''string''))
         else if escaped_loop (css st) n' False then string_loop st ig q n' else Inr n') = Inl e"
    by (simp add: string_loop.simps [of st ig q n] n'_def [symmetric])
  have u: "string_loop st2 ig2 q n =
      (if n' = -1 then Inr (pos st + 1)
       else if escaped_loop (css st) n' False then string_loop st2 ig2 q n' else Inr n')"
    using "1.prems"(2-4)
    by (simp add: string_loop.simps [of st2 ig2 q n] n'_def [symmetric])
  show ?case
  proof (cases "n' = -1")
    case True
    then show ?thesis by (simp add: u)
  next
    case False
    with * have esc: "escaped_loop (css st) n' False" and "string_loop st ig q n' = Inl e"
      by (auto split: if_splits)
    with "1.IH" [of n'] False "1.prems"(2-4) have "string_loop st2 ig2 q n' = Inr (pos st + 1)"
      by (simp add: n'_def)
    with False esc show ?thesis by (simp add: u)
  qed
qed

lemma url_loop_unfold:
  "url_loop st ig n =
     (if url_next st n = -1
      then (if ignore st \<or> ig then Some (Inr (pos st)) else Some (Inl (unclosed st ''bracket'')))
      else if escaped_loop (css st) (url_next st n) False then url_loop st ig (url_next st n)
      else Some (Inr (url_next st n)))"
  by (subst url_loop.simps) (simp add: url_next_def Let_def)

lemma url_next_range:
  assumes "spans_ok (interpolations st)"
  shows "url_next st n = -1 \<or> (n + 1 \<le> url_next st n \<and> url_next st n < int (length (css st)) \<and>
     charCodeAt (css st) (url_next st n) = Some CLOSE_PARENTHESES)"
proof -
  define next1 where "next1 = indexOf (css st) '')'' (n + 1)"
  from indexOf_range [of "css st" "'')''" "n + 1"]
  have r1: "next1 = -1 \<or> (n + 1 \<le> next1 \<and> next1 < int (length (css st)))"
    by (auto simp: next1_def)
  show ?thesis
  proof (cases "find (\<lambda>item. i_start item < next1 \<and> next1 < i_end item) (interpolations st)")
    case None
    with r1 indexOf_found [of "css st" CLOSE_PARENTHESES "n + 1"] show ?thesis
      by (auto simp: url_next_def next1_def [symmetric])
  next
    case (Some it)
    from find_SomeD [OF Some] assms have it: "0 \<le> i_start it" "i_start it < next1" "next1 < i_end it"
      by (auto simp: spans_ok_def list_all_iff)
    from Some have eq: "url_next st n = indexOf (css st) '')'' (i_end it)"
      by (simp add: url_next_def next1_def [symmetric])
    from indexOf_range [of "css st" "'')''" "i_end it"] it r1
      indexOf_found [of "css st" CLOSE_PARENTHESES "i_end it"] show ?thesis
      unfolding eq by auto
  qed
qed

lemma url_next_cong:
  "css st2 = css st \<Longrightarrow> interpolations st2 = interpolations st \<Longrightarrow> url_next st2 n = url_next st n"
  by (simp add: url_next_def cong: option.case_cong)

lemma url_loop_total:
  assumes "spans_ok (interpolations st)"
  shows "\<exists>r. url_loop st ig n = Some r \<and>
     (case r of Inl e \<Rightarrow> e = unclosed st ''bracket'' \<and> \<not> (ignore st \<or> ig)
      | Inr e \<Rightarrow> (e = pos st \<and> (ignore st \<or> ig)) \<or>
          (n + 1 \<le> e \<and> e < int (length (css st)) \<and>
           charCodeAt (css st) e = Some CLOSE_PARENTHESES))"
proof (induction "nat (int (length (css st)) - n)" arbitrary: n rule: less_induct)
  case less
  note r = url_next_range [OF assms, of n]
  show ?case
  proof (cases "url_next st n = -1")
    case True
    then show ?thesis by (simp add: url_loop_unfold [of st ig n])
  next
    case False
    show ?thesis
    proof (cases "escaped_loop (css st) (url_next st n) False")
      case True
      from r False have "nat (int (length (css st)) - url_next st n) < nat (int (length (css st)) - n)"
        by simp
      from less [OF this] obtain r' where r': "url_loop st ig (url_next st n) = Some r'"
        "case r' of Inl e \<Rightarrow> e = unclosed st ''bracket'' \<and> \<not> (ignore st \<or> ig)
      | Inr e \<Rightarrow> (e = pos st \<and> (ignore st \<or> ig)) \<or>
          (url_next st n + 1 \<le> e \<and> e < int (length (css st)) \<and>
           charCodeAt (css st) e = Some CLOSE_PARENTHESES)"
        by blast
      from r'(2) r False have "case r' of Inl e \<Rightarrow> e = unclosed st ''bracket'' \<and> \<not> (ignore st \<or> ig)
      | Inr e \<Rightarrow> (e = pos st \<and> (ignore st \<or> ig)) \<or>
          (n + 1 \<le> e \<and> e < int (length (css st)) \<and>
           charCodeAt (css st) e = Some CLOSE_PARENTHESES)"
        by (cases r') auto
      with r'(1) True False show ?thesis by (simp add: url_loop_unfold [of st ig n])
    next
      case esc: False
      with False r show ?thesis by (simp add: url_loop_unfold [of st ig n])
    qed
  qed
qed

lemma url_loop_degrade_aux:
  "url_loop st ig n = Some y \<Longrightarrow>
   css st2 = css st \<longrightarrow> pos st2 = pos st \<longrightarrow> interpolations st2 = interpolations st \<longrightarrow>
     y = Inl e \<longrightarrow>
     e = unclosed st ''bracket'' \<and> \<not> (ignore st \<or> ig) \<and>
     ((ignore st2 \<or> ig2) \<longrightarrow> url_loop st2 ig2 n = Some (Inr (pos st)))"
proof (erule url_loop.raw_induct [where P = "\<lambda>st ig n y.
     css st2 = css st \<longrightarrow> pos st2 = pos st \<longrightarrow> interpolations st2 = interpolations st \<longrightarrow>
     y = Inl e \<longrightarrow>
     e = unclosed st ''bracket'' \<and> \<not> (ignore st \<or> ig) \<and>
     ((ignore st2 \<or> ig2) \<longrightarrow> url_loop st2 ig2 n = Some (Inr (pos st)))", rotated 1], intro impI)
  fix f :: "tokenizer_state \<Rightarrow> bool \<Rightarrow> int \<Rightarrow> (error + int) option"
    and st ig n y
  assume ih: "\<And>st ig n y. f st ig n = Some y \<Longrightarrow>
     css st2 = css st \<longrightarrow> pos st2 = pos st \<longrightarrow> interpolations st2 = interpolations st \<longrightarrow>
     y = Inl e \<longrightarrow>
     e = unclosed st ''bracket'' \<and> \<not> (ignore st \<or> ig) \<and>
     ((ignore st2 \<or> ig2) \<longrightarrow> url_loop st2 ig2 n = Some (Inr (pos st)))"
    and body: "(let next1 = indexOf (css st) '')'' (n + 1);
          next2 = (case find (\<lambda>item. i_start item < next1 \<and> next1 < i_end item)
                             (interpolations st) of
                     Some interpolation \<Rightarrow> indexOf (css st) '')'' (i_end interpolation)
                   | None \<Rightarrow> next1)
      in if next2 = -1
         then (if ignore st \<or> ig then Some (Inr (pos st))
               else Some (Inl (unclosed st ''bracket'')))
         else if escaped_loop (css st) next2 False
              then f st ig next2
              else Some (Inr next2)) = Some y"
    and p: "css st2 = css st" "pos st2 = pos st" "interpolations st2 = interpolations st"
      "y = Inl e"
  note c = url_next_cong [OF p(1) p(3)]
  from body p(4) have *: "(if url_next st n = -1
      then (if ignore st \<or> ig then Some (Inr (pos st)) else Some (Inl (unclosed st ''bracket'')))
      else if escaped_loop (css st) (url_next st n) False then f st ig (url_next st n)
      else Some (Inr (url_next st n))) = Some (Inl e)"
    unfolding url_next_def Let_def by simp
  show "e = unclosed st ''bracket'' \<and> \<not> (ignore st \<or> ig) \<and>
    ((ignore st2 \<or> ig2) \<longrightarrow> url_loop st2 ig2 n = Some (Inr (pos st)))"
  proof (cases "url_next st n = -1")
    case True
    with * p show ?thesis
      by (auto simp: url_loop_unfold [of st2 ig2 n] c split: if_splits)
  next
    case False
    with * have esc: "escaped_loop (css st) (url_next st n) False"
      and "f st ig (url_next st n) = Some (Inl e)"
      by (auto split: if_splits)
    from ih [OF this(2)] p False esc show ?thesis
      by (simp add: url_loop_unfold [of st2 ig2 n] c)
  qed
qed

lemma url_loop_degrade:
  assumes "url_loop st ig n = Some (Inl e)"
    and "css st2 = css st" "pos st2 = pos st" "interpolations st2 = interpolations st"
  shows "e = unclosed st ''bracket''" "\<not> (ignore st \<or> ig)"
    "ignore st2 \<or> ig2 \<Longrightarrow> url_loop st2 ig2 n = Some (Inr (pos st))"
  using url_loop_degrade_aux [OF assms(1), of st2 e ig2] assms(2-4) by simp_all

section \<open>The cases of \<open>nextToken\<close>\<close>

lemma finish_Inr:
  "finish r = Inr (t, st') \<Longrightarrow> \<exists>st1. r = Inr st1 \<and> t = currentToken st1 \<and> st' = st1\<lparr>pos := pos st1 + 1\<rparr>"
  by (cases r) (auto simp: finish_def)

lemma finish_Inl: "finish r = Inl e \<longleftrightarrow> r = Inl e"
  by (cases r) (simp_all add: finish_def)

lemma nextToken_dispatch:
  assumes ret: "returned st = []" and lt: "pos st < int (length (css st))"
  obtains (space) "is_space_code (charCodeAt (css st) (pos st))"
      "nextToken ig st = Some (finish (Inr (nextToken_space st)))"
    | (control) c where "charCodeAt (css st) (pos st) = Some c" "is_control_code (Some c)"
      "nextToken ig st = Some (finish (Inr (nextToken_control c st)))"
    | (paren) "charCodeAt (css st) (pos st) = Some OPEN_PARENTHESES"
      "nextToken ig st = map_option finish (nextToken_paren ig st)"
    | (quote) c where "charCodeAt (css st) (pos st) = Some c" "c = SINGLE_QUOTE \<or> c = DOUBLE_QUOTE"
      "nextToken ig st = Some (finish (nextToken_quote ig c st))"
    | (at) "charCodeAt (css st) (pos st) = Some AT"
      "nextToken ig st = Some (finish (Inr (nextToken_at st)))"
    | (backslash) "charCodeAt (css st) (pos st) = Some BACKSLASH"
      "nextToken ig st = Some (finish (Inr (nextToken_backslash st)))"
    | (default) "charCodeAt (css st) (pos st) \<noteq> Some OPEN_PARENTHESES"
      "charCodeAt (css st) (pos st) \<noteq> Some SINGLE_QUOTE"
      "charCodeAt (css st) (pos st) \<noteq> Some DOUBLE_QUOTE"
      "nextToken ig st = Some (finish (nextToken_default ig (charCodeAt (css st) (pos st)) st))"
      "\<not> is_space_code (charCodeAt (css st) (pos st))"
      "\<not> is_control_code (charCodeAt (css st) (pos st))"
      "charCodeAt (css st) (pos st) \<noteq> Some AT"
      "charCodeAt (css st) (pos st) \<noteq> Some BACKSLASH"
proof -
  define code where "code = charCodeAt (css st) (pos st)"
  from lt have nlt: "\<not> int (length (css st)) \<le> pos st" by simp
  consider (sp) "is_space_code code"
    | (ctl) "\<not> is_space_code code" "is_control_code code"
    | (par) "\<not> is_space_code code" "\<not> is_control_code code" "code = Some OPEN_PARENTHESES"
    | (quo) "\<not> is_space_code code" "\<not> is_control_code code" "code \<noteq> Some OPEN_PARENTHESES"
        "code = Some SINGLE_QUOTE \<or> code = Some DOUBLE_QUOTE"
    | (at') "\<not> is_space_code code" "\<not> is_control_code code" "code \<noteq> Some OPEN_PARENTHESES"
        "\<not> (code = Some SINGLE_QUOTE \<or> code = Some DOUBLE_QUOTE)" "code = Some AT"
    | (bs) "\<not> is_space_code code" "\<not> is_control_code code" "code \<noteq> Some OPEN_PARENTHESES"
        "\<not> (code = Some SINGLE_QUOTE \<or> code = Some DOUBLE_QUOTE)" "code \<noteq> Some AT"
        "code = Some BACKSLASH"
    | (dflt) "\<not> is_space_code code" "\<not> is_control_code code" "code \<noteq> Some OPEN_PARENTHESES"
        "\<not> (code = Some SINGLE_QUOTE \<or> code = Some DOUBLE_QUOTE)" "code \<noteq> Some AT"
        "code \<noteq> Some BACKSLASH"
    by blast
  then show thesis
  proof cases
    case sp
    with ret nlt have "nextToken ig st = Some (finish (Inr (nextToken_space st)))"
      by (simp add: nextToken_def code_def Let_def)
    with sp show ?thesis by (intro space) (simp_all add: code_def)
  next
    case ctl
    from ctl obtain c where c: "code = Some c" by (auto simp: is_control_code_def)
    with ctl ret nlt have "nextToken ig st = Some (finish (Inr (nextToken_control c st)))"
      by (simp add: nextToken_def code_def Let_def)
    with ctl c show ?thesis by (intro control [of c]) (simp_all add: code_def)
  next
    case par
    with ret nlt have "nextToken ig st = map_option finish (nextToken_paren ig st)"
      by (simp add: nextToken_def code_def Let_def)
    with par show ?thesis by (intro paren) (simp_all add: code_def)
  next
    case quo
    from quo obtain c where c: "code = Some c" by auto
    with quo ret nlt have "nextToken ig st = Some (finish (nextToken_quote ig c st))"
      by (simp add: nextToken_def code_def Let_def)
    with quo c show ?thesis by (intro quote [of c]) (simp_all add: code_def)
  next
    case at'
    with ret nlt have "nextToken ig st = Some (finish (Inr (nextToken_at st)))"
      by (simp add: nextToken_def code_def Let_def)
    with at' show ?thesis by (intro at) (simp_all add: code_def)
  next
    case bs
    with ret nlt have "nextToken ig st = Some (finish (Inr (nextToken_backslash st)))"
      by (simp add: nextToken_def code_def Let_def)
    with bs show ?thesis by (intro backslash) (simp_all add: code_def)
  next
    case dflt
    with ret nlt have "nextToken ig st = Some (finish (nextToken_default ig code st))"
      by (simp add: nextToken_def code_def Let_def)
    with dflt show ?thesis by (intro default) (simp_all add: code_def)
  qed
qed

lemma nextToken_at_backslash:
  assumes "returned st = []" and "charCodeAt (css st) (pos st) = Some BACKSLASH"
  shows "nextToken ignoreUnclosed st = Some (finish (Inr (nextToken_backslash st)))"
proof -
  from charCodeAt_Some_range [OF assms(2)] have "\<not> int (length (css st)) \<le> pos st"
    by simp
  with assms show ?thesis
    by (simp add: nextToken_def Let_def is_space_code_def is_control_code_def)
qed

lemma nextToken_at_quote:
  assumes "returned st = []" and "charCodeAt (css st) (pos st) = Some c"
    and "c = SINGLE_QUOTE \<or> c = DOUBLE_QUOTE"
  shows "nextToken ig st = Some (finish (nextToken_quote ig c st))"
proof -
  from charCodeAt_Some_range [OF assms(2)] have "\<not> int (length (css st)) \<le> pos st"
    by simp
  with assms show ?thesis
    by (auto simp: nextToken_def Let_def is_space_code_def is_control_code_def)
qed

lemma nextToken_at_paren:
  assumes "returned st = []" and "charCodeAt (css st) (pos st) = Some OPEN_PARENTHESES"
  shows "nextToken ig st = map_option finish (nextToken_paren ig st)"
proof -
  from charCodeAt_Some_range [OF assms(2)] have "\<not> int (length (css st)) \<le> pos st"
    by simp
  with assms show ?thesis
    by (simp add: nextToken_def Let_def is_space_code_def is_control_code_def)
qed

lemma nextToken_at_slash:
  assumes "returned st = []" and "charCodeAt (css st) (pos st) = Some SLASH"
  shows "nextToken ig st = Some (finish (nextToken_default ig (Some SLASH) st))"
proof -
  from charCodeAt_Some_range [OF assms(2)] have "\<not> int (length (css st)) \<le> pos st"
    by simp
  with assms show ?thesis
    by (simp add: nextToken_def Let_def is_space_code_def is_control_code_def)
qed

lemma nextToken_paren_unfold:
  "nextToken_paren ig st =
     (if url_mode st
      then (case url_loop (st\<lparr>buffer := butlast (buffer st)\<rparr>) ig (pos st) of
              None \<Rightarrow> None
            | Some (Inl e) \<Rightarrow> Some (Inl e)
            | Some (Inr e) \<Rightarrow>
                Some (Inr (st\<lparr>buffer := butlast (buffer st),
                              currentToken := Some (Token ''brackets''
                                (slice (css st) (pos st) (e + 1)) [pos st, e]),
                              pos := e\<rparr>)))
      else if indexOf (css st) '')'' (pos st + 1) = -1 \<or>
         RE_BAD_BRACKET (slice (css st) (pos st) (indexOf (css st) '')'' (pos st + 1) + 1))
      then Some (Inr (st\<lparr>buffer := butlast (buffer st),
                         currentToken := Some (Token ''('' ''('' [pos st])\<rparr>))
      else Some (Inr (st\<lparr>buffer := butlast (buffer st),
                         currentToken := Some (Token ''brackets''
                           (slice (css st) (pos st) (indexOf (css st) '')'' (pos st + 1) + 1))
                           [pos st, indexOf (css st) '')'' (pos st + 1)]),
                         pos := indexOf (css st) '')'' (pos st + 1)\<rparr>)))"
proof (cases "buffer st = []")
  case True
  then show ?thesis
    by (simp add: nextToken_paren_def url_mode_def Let_def)
next
  case False
  then show ?thesis
    by (simp add: nextToken_paren_def url_mode_def Let_def split: option.split sum.split
        cong: if_cong)
qed

lemmas paren_url = nextToken_paren_unfold [THEN trans, OF if_P]

lemmas paren_normal = nextToken_paren_unfold [THEN trans, OF if_not_P]

lemma nextToken_Inl_cases:
  assumes ret: "returned st = []" and err: "nextToken ig st = Some (Inl e)"
  obtains (quote) c where "charCodeAt (css st) (pos st) = Some c" "c = SINGLE_QUOTE \<or> c = DOUBLE_QUOTE"
      "string_loop st ig c (pos st) = Inl e"
    | (paren) "charCodeAt (css st) (pos st) = Some OPEN_PARENTHESES" "url_mode st"
      "url_loop (st\<lparr>buffer := butlast (buffer st)\<rparr>) ig (pos st) = Some (Inl e)"
    | (comment) "charCodeAt (css st) (pos st) = Some SLASH"
      "charCodeAt (css st) (pos st + 1) = Some ASTERISK"
      "indexOf (css st) ''*/'' (pos st + 2) = -1" "\<not> (ignore st \<or> ig)"
      "e = unclosed st ''comment''"
proof -
  from ret err have lt: "pos st < int (length (css st))"
    by (auto simp: nextToken_def split: if_splits)
  from ret lt show thesis
  proof (cases rule: nextToken_dispatch [where ig = ig])
    case space
    with err show ?thesis by (simp add: finish_def)
  next
    case (control c)
    with err show ?thesis by (simp add: finish_def)
  next
    case paren
    with err have p: "nextToken_paren ig st = Some (Inl e)"
      by (auto simp: finish_Inl)
    show ?thesis
    proof (cases "url_mode st")
      case True
      with p have "url_loop (st\<lparr>buffer := butlast (buffer st)\<rparr>) ig (pos st) = Some (Inl e)"
        by (simp add: nextToken_paren_unfold split: option.splits sum.splits)
      with paren(1) True show ?thesis by (rule that(2))
    next
      case False
      with p show ?thesis
        by (simp add: nextToken_paren_unfold split: if_splits)
    qed
  next
    case (quote c)
    with err have "nextToken_quote ig c st = Inl e"
      by (simp add: finish_Inl)
    with quote(2) have "string_loop st ig c (pos st) = Inl e"
      by (auto simp: nextToken_quote_def Let_def split: sum.splits)
    with quote(1,2) show ?thesis by (rule that(1))
  next
    case at
    with err show ?thesis by (simp add: finish_def)
  next
    case backslash
    with err show ?thesis by (simp add: finish_def)
  next
    case default
    with err have d: "nextToken_default ig (charCodeAt (css st) (pos st)) st = Inl e"
      by (simp add: finish_Inl)
    then have "charCodeAt (css st) (pos st) = Some SLASH \<and>
      charCodeAt (css st) (pos st + 1) = Some ASTERISK \<and>
      indexOf (css st) ''*/'' (pos st + 2) = -1 \<and> \<not> (ignore st \<or> ig) \<and>
      e = unclosed st ''comment''"
      by (auto simp: nextToken_default_def Let_def split: if_splits option.splits)
    then show ?thesis using that(3) by blast
  qed
qed

subsection \<open>What a case leaves in the state\<close>

lemma space_scanned: "scanned st (nextToken_space st)"
  using space_loop_ge [of "pos st" "css st"]
  by (simp add: scanned_def nextToken_space_def Let_def)

lemma control_scanned:
  "charCodeAt (css st) (pos st) = Some c \<Longrightarrow> scanned st (nextToken_control c st)"
  by (simp add: scanned_def nextToken_control_def Let_def slice_single)

lemma quote_scanned:
  "case nextToken_quote ig c st of
     Inl e \<Rightarrow> e = unclosed st ''string'' \<and> \<not> (ignore st \<or> ig)
   | Inr st1 \<Rightarrow> scanned st st1"
proof (cases "string_loop st ig (if c = SINGLE_QUOTE then SINGLE_QUOTE else DOUBLE_QUOTE) (pos st)")
  case (Inl e)
  with string_loop_Inl [OF Inl] show ?thesis
    by (simp add: nextToken_quote_def)
next
  case (Inr e)
  with string_loop_ge [OF Inr] show ?thesis
    by (simp add: nextToken_quote_def scanned_def)
qed

lemma at_scanned:
  "pos st < int (length (css st)) \<Longrightarrow> scanned st (nextToken_at st)"
  using test_from_range [of RE_AT_END "css st" "pos st + 1"]
  by (auto simp: scanned_def nextToken_at_def Let_def)

lemma backslash_scanned: "scanned st (nextToken_backslash st)"
proof -
  obtain n0 esc where b: "backslash_loop (css st) (pos st) True = (n0, esc)"
    by (cases "backslash_loop (css st) (pos st) True")
  from backslash_loop_ge [of "pos st" "css st" True] b have "pos st \<le> n0" by simp
  with hex_loop_ge [of "n0 + 1" "css st"] b show ?thesis
    by (simp add: scanned_def nextToken_backslash_def Let_def)
qed

lemma paren_scanned:
  assumes "spans_ok (interpolations st)" and "charCodeAt (css st) (pos st) = Some OPEN_PARENTHESES"
  shows "\<exists>r. nextToken_paren ig st = Some r \<and>
     (case r of Inl e \<Rightarrow> e = unclosed st ''bracket'' \<and> \<not> (ignore st \<or> ig)
      | Inr st1 \<Rightarrow> scanned st st1)"
proof (cases "url_mode st")
  case True
  define st0 where "st0 = st\<lparr>buffer := butlast (buffer st)\<rparr>"
  have st0: "css st0 = css st" "pos st0 = pos st" "ignore st0 = ignore st"
    "interpolations st0 = interpolations st" "returned st0 = returned st"
    "unclosed st0 ''bracket'' = unclosed st ''bracket''"
    by (simp_all add: st0_def unclosed_def)
  from assms(1) have "spans_ok (interpolations st0)" by (simp add: st0)
  from url_loop_total [OF this, of ig "pos st0"] obtain r where
    r0: "url_loop st0 ig (pos st0) = Some r"
       "case r of Inl e \<Rightarrow> e = unclosed st0 ''bracket'' \<and> \<not> (ignore st0 \<or> ig)
        | Inr e \<Rightarrow> (e = pos st0 \<and> (ignore st0 \<or> ig)) \<or>
            (pos st0 + 1 \<le> e \<and> e < int (length (css st0)) \<and>
             charCodeAt (css st0) e = Some CLOSE_PARENTHESES)"
    by blast
  show ?thesis
  proof (cases r)
    case (Inl e)
    with r0 show ?thesis
      by (simp add: paren_url [OF True] st0_def [symmetric] st0)
  next
    case (Inr e)
    with r0 have "pos st \<le> e" by (auto simp: st0)
    with Inr r0(1) show ?thesis
      by (simp add: paren_url [OF True] st0_def [symmetric] st0 scanned_def)
  qed
next
  case False
  define cand where "cand = indexOf (css st) '')'' (pos st + 1)"
  from indexOf_range [of "css st" "'')''" "pos st + 1"]
  have nx: "cand = -1 \<or> pos st + 1 \<le> cand" by (auto simp: cand_def)
  show ?thesis
  proof (cases "cand = -1 \<or> RE_BAD_BRACKET (slice (css st) (pos st) (cand + 1))")
    case True
    then show ?thesis
      using slice_single [OF assms(2)]
      by (simp add: paren_normal [OF False] scanned_def cand_def [symmetric])
  next
    case bad: False
    with nx show ?thesis
      by (simp add: paren_normal [OF False] scanned_def cand_def [symmetric])
  qed
qed

lemma default_scanned:
  assumes ok: "spans_ok (interpolations st)" and lt: "pos st < int (length (css st))"
  shows "case nextToken_default ig code st of
           Inl e \<Rightarrow> e = unclosed st ''comment'' \<and> \<not> (ignore st \<or> ig)
         | Inr st1 \<Rightarrow> scanned st st1 \<or>
             (st1 = st \<and> code = Some DOLLAR_SIGN \<and>
              find (\<lambda>item. i_start item = pos st) (interpolations st) = None)"
proof (cases "code = Some DOLLAR_SIGN")
  case True
  show ?thesis
  proof (cases "find (\<lambda>item. i_start item = pos st) (interpolations st)")
    case None
    with True show ?thesis by (simp add: nextToken_default_def)
  next
    case (Some it)
    from spans_okD [OF ok Some] have "pos st \<le> i_end it" by simp
    with True Some show ?thesis by (simp add: nextToken_default_def scanned_def Let_def)
  qed
next
  case nd: False
  show ?thesis
  proof (cases "code = Some SLASH \<and> charCodeAt (css st) (pos st + 1) = Some ASTERISK")
    case True
    define n0 where "n0 = indexOf (css st) ''*/'' (pos st + 2) + 1"
    from indexOf_range [of "css st" "''*/''" "pos st + 2"] have "n0 = 0 \<or> pos st \<le> n0"
      by (auto simp: n0_def)
    with True nd lt show ?thesis
      by (auto simp: nextToken_default_def scanned_def Let_def n0_def [symmetric])
  next
    case False
    define li where "li = test_from RE_WORD_END (css st) (pos st + 1)"
    define n0 where "n0 = (if li = 0 then int (length (css st)) - 1 else li - 2)"
    from test_from_range [of RE_WORD_END "css st" "pos st + 1"] lt have n0: "pos st \<le> n0"
      by (auto simp: n0_def li_def)
    show ?thesis
    proof (cases "find (\<lambda>item. pos st \<le> i_start item \<and> i_start item \<le> n0 + 1) (interpolations st)")
      case None
      with nd n0 show ?thesis
        by (simp add: nextToken_default_def scanned_def Let_def li_def [symmetric]
            n0_def [symmetric] False)
    next
      case (Some it)
      from spans_okD [OF ok Some] have "pos st \<le> i_end it" by simp
      with nd Some show ?thesis
        by (simp add: nextToken_default_def scanned_def Let_def li_def [symmetric]
            n0_def [symmetric] False)
    qed
  qed
qed

lemma nextToken_step:
  assumes ret: "returned st = []" and lt: "pos st < int (length (css st))"
    and ok: "spans_ok (interpolations st)"
  shows "\<exists>res. nextToken ig st = Some res \<and>
     (case res of
        Inl e \<Rightarrow> \<not> (ignore st \<or> ig) \<and> (\<exists>what. e = unclosed st what)
      | Inr (r, st') \<Rightarrow>
          (\<exists>st1. st' = st1\<lparr>pos := pos st1 + 1\<rparr> \<and> r = currentToken st1 \<and>
             (scanned st st1 \<or>
              (st1 = st \<and> charCodeAt (css st) (pos st) = Some DOLLAR_SIGN \<and>
               find (\<lambda>item. i_start item = pos st) (interpolations st) = None))))"
  using ret lt
proof (cases rule: nextToken_dispatch [where ig = ig])
  case space
  with space_scanned [of st] show ?thesis
    by (auto simp: finish_def)
next
  case (control c)
  with control_scanned [of st c] show ?thesis
    by (auto simp: finish_def)
next
  case paren
  from paren_scanned [OF ok paren(1), where ig = ig] obtain r where
    r: "nextToken_paren ig st = Some r"
    "case r of Inl e \<Rightarrow> e = unclosed st ''bracket'' \<and> \<not> (ignore st \<or> ig)
      | Inr st1 \<Rightarrow> scanned st st1"
    by blast
  show ?thesis
  proof (cases r)
    case (Inl e)
    with r paren(2) show ?thesis by (auto simp: finish_def)
  next
    case (Inr st1)
    with r paren(2) show ?thesis by (auto simp: finish_def)
  qed
next
  case (quote c)
  show ?thesis
  proof (cases "nextToken_quote ig c st")
    case (Inl e)
    with quote_scanned [where ig = ig and c = c and st = st] quote(3) show ?thesis
      by (auto simp: finish_def)
  next
    case (Inr st1)
    with quote_scanned [where ig = ig and c = c and st = st] quote(3) show ?thesis
      by (auto simp: finish_def)
  qed
next
  case at
  with at_scanned [OF lt] show ?thesis
    by (auto simp: finish_def)
next
  case backslash
  with backslash_scanned [of st] show ?thesis
    by (auto simp: finish_def)
next
  case default
  define code where "code = charCodeAt (css st) (pos st)"
  show ?thesis
  proof (cases "nextToken_default ig code st")
    case (Inl e)
    with default_scanned [OF ok lt, where ig = ig and code = code] default(4) show ?thesis
      by (auto simp: finish_def code_def)
  next
    case (Inr st1)
    with default_scanned [OF ok lt, where ig = ig and code = code] default(4) show ?thesis
      by (auto simp: finish_def code_def)
  qed
qed

lemma scanned_frame:
  assumes "scanned st st1 \<or> st1 = st"
  shows "css (st1\<lparr>pos := pos st1 + 1\<rparr>) = css st"
    "ignore (st1\<lparr>pos := pos st1 + 1\<rparr>) = ignore st"
    "interpolations (st1\<lparr>pos := pos st1 + 1\<rparr>) = interpolations st"
    "returned (st1\<lparr>pos := pos st1 + 1\<rparr>) = returned st"
    "pos st < pos (st1\<lparr>pos := pos st1 + 1\<rparr>)"
  using assms by (auto simp: scanned_def)

subsection \<open>The consumer's loop\<close>

lemma drain_unfold:
  "drain ig acc st =
     (if endOfFile st then Some (Inr (acc, st))
      else (case nextToken ig st of
              None \<Rightarrow> None
            | Some (Inl e) \<Rightarrow> Some (Inl e)
            | Some (Inr (t, st')) \<Rightarrow> drain ig (acc @ [t]) st'))"
  by (subst drain.simps) simp

lemma texts_snoc: "texts (acc @ [Some t]) = texts acc @ ttext t"
  by (simp add: texts_def)

lemma drain_texts:
  assumes "spans_ok (interpolations st)" and "returned st = []" and "0 \<le> pos st"
    and "DOLLAR_SIGN \<notin> set (css st)"
    and "drain ig acc st = Some (Inr (ts, stf))"
  shows "texts ts = texts acc @ slice (css st) (pos st) (pos stf) \<and> pos st \<le> pos stf \<and>
     int (length (css st)) \<le> pos stf"
  using assms
proof (induction "nat (int (length (css st)) - pos st)" arbitrary: st acc rule: less_induct)
  case less
  show ?case
  proof (cases "endOfFile st")
    case True
    with less.prems(5) have "ts = acc" "stf = st"
      by (simp_all add: drain_unfold [of ig acc st])
    with True show ?thesis
      by (simp add: slice_def endOfFile_def Let_def)
  next
    case False
    with less.prems have lt: "pos st < int (length (css st))"
      by (simp add: endOfFile_def)
    from nextToken_step [OF less.prems(2) lt less.prems(1), of ig]
    obtain res where res: "nextToken ig st = Some res"
      "case res of
        Inl e \<Rightarrow> \<not> (ignore st \<or> ig) \<and> (\<exists>what. e = unclosed st what)
      | Inr (r, st') \<Rightarrow>
          (\<exists>st1. st' = st1\<lparr>pos := pos st1 + 1\<rparr> \<and> r = currentToken st1 \<and>
             (scanned st st1 \<or>
              (st1 = st \<and> charCodeAt (css st) (pos st) = Some DOLLAR_SIGN \<and>
               find (\<lambda>item. i_start item = pos st) (interpolations st) = None)))"
      by blast
    from res(1) False less.prems(5) obtain r st' where r: "res = Inr (r, st')"
      by (cases res) (auto simp: drain_unfold [of ig acc st])
    with res(2) less.prems(4) obtain st1 where st1: "st' = st1\<lparr>pos := pos st1 + 1\<rparr>"
      "r = currentToken st1" "scanned st st1"
      by (auto dest: charCodeAt_in_set)
    from st1(3) obtain t where t: "currentToken st1 = Some t"
      "ttext t = slice (css st) (pos st) (pos st1 + 1)"
      by (auto simp: scanned_def split: option.splits)
    from st1(3) have "scanned st st1 \<or> st1 = st" by simp
    note fr = scanned_frame [OF this, folded st1(1)]
    from fr lt have m: "nat (int (length (css st')) - pos st') < nat (int (length (css st)) - pos st)"
      by simp
    from res(1) r False less.prems(5) have d: "drain ig (acc @ [r]) st' = Some (Inr (ts, stf))"
      by (simp add: drain_unfold [of ig acc st])
    from less.prems fr have p: "spans_ok (interpolations st')" "returned st' = []" "0 \<le> pos st'"
      "DOLLAR_SIGN \<notin> set (css st')"
      by simp_all
    from less.hyps [OF m p d]
    have ih: "texts ts = texts (acc @ [r]) @ slice (css st) (pos st') (pos stf)"
      "pos st' \<le> pos stf" "int (length (css st)) \<le> pos stf"
      by (simp_all add: fr)
    from t st1 have "texts (acc @ [r]) = texts acc @ slice (css st) (pos st) (pos st')"
      by (simp add: texts_snoc)
    with ih(1) have "texts ts = texts acc @ (slice (css st) (pos st) (pos st') @
        slice (css st) (pos st') (pos stf))"
      by simp
    also from less.prems(3) fr(5) ih(2)
    have "slice (css st) (pos st) (pos st') @ slice (css st) (pos st') (pos stf) =
        slice (css st) (pos st) (pos stf)"
      by (intro slice_add) simp_all
    finally show ?thesis
      using ih fr(5) by simp
  qed
qed

section \<open>C1: the texts of the tokens and the input\<close>

text \<open>
  Claim C1 says that, without interpolation spans, the texts of the tokens returned until
  the end of the stream, concatenated, are the input.  On the input \<open> $x\<close> (a space, a
  dollar sign, \<open>x\<close>) the call at the dollar sign returns the space token of the call
  before it once more: the texts make up two spaces and \<open>x\<close>.
\<close>

theorem C1_dollar_loses_text:
  "map_option (map_sum id (\<lambda>(ts, st). (ts, texts ts)))
       (drain False [] (tokenizer '' $x'' False [])) =
     Some (Inr ([Some (Token ''space'' '' '' []), Some (Token ''space'' '' '' []),
                 Some (Token ''word'' ''x'' [2, 2])], ''  x''))"
  by code_simp

text \<open>
  The dollar sign is the only obstacle.  For an input without a dollar sign and without
  spans, whenever the calls reach the end of the stream without an exception, in the
  strict as in the permissive mode, the texts of the tokens make up the input.
\<close>

lemma roundtrip_without_dollar:
  assumes "DOLLAR_SIGN \<notin> set input"
    and "drain ignoreUnclosed [] (tokenizer input ignoreErrors []) = Some (Inr (ts, stf))"
  shows "texts ts = input"
proof -
  have "texts ts = texts [] @ slice input 0 (pos stf) \<and> 0 \<le> pos stf \<and> int (length input) \<le> pos stf"
    using drain_texts [of "tokenizer input ignoreErrors []" ignoreUnclosed "[]" ts stf] assms
    by (simp add: tokenizer_def spans_ok_def)
  then show ?thesis
    by (simp add: texts_def slice_all)
qed

section \<open>C2: a closing parenthesis inside a span\<close>

text \<open>
  What the search does for the first candidate.  In URL mode, when the first closing
  parenthesis after the opening one lies strictly inside a span (after its start and
  before its end; \<open>sp\<close> is the first such span of the list), the token does not end there:
  the call throws "Unclosed bracket" at the opening parenthesis (strict mode only), or
  returns the one-character token of the permissive mode, or returns a \<open>brackets\<close> token
  that ends at a closing parenthesis at or after the end offset of \<open>sp\<close>.  The spans are
  offsets with the start not after the end.
\<close>

lemma url_first_candidate_skipped:
  assumes ret: "returned st = []"
    and code: "charCodeAt (css st) (pos st) = Some OPEN_PARENTHESES"
    and um: "url_mode st"
    and ok: "spans_ok (interpolations st)"
    and sp: "find (\<lambda>item. i_start item < indexOf (css st) '')'' (pos st + 1) \<and>
                       indexOf (css st) '')'' (pos st + 1) < i_end item)
               (interpolations st) = Some sp"
  shows "\<exists>res. nextToken ig st = Some res \<and>
     (case res of
        Inl e \<Rightarrow> e = CssSyntaxError ''Unclosed bracket'' (pos st) \<and> \<not> (ignore st \<or> ig)
      | Inr (r, st') \<Rightarrow>
          (\<exists>e. r = Some (Token ''brackets'' (slice (css st) (pos st) (e + 1)) [pos st, e]) \<and>
             ((e = pos st \<and> (ignore st \<or> ig)) \<or>
              (i_end sp \<le> e \<and> charCodeAt (css st) e = Some CLOSE_PARENTHESES))))"
proof -
  define st0 where "st0 = st\<lparr>buffer := butlast (buffer st)\<rparr>"
  have st0: "css st0 = css st" "pos st0 = pos st" "ignore st0 = ignore st"
    "interpolations st0 = interpolations st"
    "unclosed st0 ''bracket'' = CssSyntaxError ''Unclosed bracket'' (pos st)"
    by (simp_all add: st0_def unclosed_def)
  from ok have ok0: "spans_ok (interpolations st0)" by (simp add: st0)
  define n2 where "n2 = indexOf (css st) '')'' (i_end sp)"
  from sp have un: "url_next st0 (pos st) = n2"
    by (simp add: url_next_def st0 n2_def)
  from indexOf_range [of "css st" "'')''" "i_end sp"]
    indexOf_found [of "css st" CLOSE_PARENTHESES "i_end sp"]
  have n2: "n2 = -1 \<or> (i_end sp \<le> n2 \<and> charCodeAt (css st) n2 = Some CLOSE_PARENTHESES)"
    by (auto simp: n2_def)
  have "\<exists>r. url_loop st0 ig (pos st) = Some r \<and>
     (case r of Inl e \<Rightarrow> e = CssSyntaxError ''Unclosed bracket'' (pos st) \<and> \<not> (ignore st \<or> ig)
      | Inr e \<Rightarrow> (e = pos st \<and> (ignore st \<or> ig)) \<or>
          (i_end sp \<le> e \<and> charCodeAt (css st) e = Some CLOSE_PARENTHESES))"
  proof (cases "n2 = -1")
    case True
    then show ?thesis
      by (simp add: url_loop_unfold [of st0 ig "pos st"] un st0)
  next
    case False
    show ?thesis
    proof (cases "escaped_loop (css st) n2 False")
      case esc: False
      with False n2 show ?thesis
        by (simp add: url_loop_unfold [of st0 ig "pos st"] un st0)
    next
      case True
      from url_loop_total [OF ok0, of ig n2] obtain r where
        r: "url_loop st0 ig n2 = Some r"
        "case r of Inl e \<Rightarrow> e = unclosed st0 ''bracket'' \<and> \<not> (ignore st0 \<or> ig)
         | Inr e \<Rightarrow> (e = pos st0 \<and> (ignore st0 \<or> ig)) \<or>
             (n2 + 1 \<le> e \<and> e < int (length (css st0)) \<and>
              charCodeAt (css st0) e = Some CLOSE_PARENTHESES)"
        by blast
      from r(2) n2 False have "case r of
          Inl e \<Rightarrow> e = CssSyntaxError ''Unclosed bracket'' (pos st) \<and> \<not> (ignore st \<or> ig)
        | Inr e \<Rightarrow> (e = pos st \<and> (ignore st \<or> ig)) \<or>
          (i_end sp \<le> e \<and> charCodeAt (css st) e = Some CLOSE_PARENTHESES)"
        by (cases r) (auto simp: st0)
      with r(1) True False show ?thesis
        by (simp add: url_loop_unfold [of st0 ig "pos st"] un st0)
    qed
  qed
  then obtain r where r: "url_loop st0 ig (pos st) = Some r"
    "case r of Inl e \<Rightarrow> e = CssSyntaxError ''Unclosed bracket'' (pos st) \<and> \<not> (ignore st \<or> ig)
      | Inr e \<Rightarrow> (e = pos st \<and> (ignore st \<or> ig)) \<or>
          (i_end sp \<le> e \<and> charCodeAt (css st) e = Some CLOSE_PARENTHESES)"
    by blast
  have nt: "nextToken ig st = map_option finish (nextToken_paren ig st)"
    by (rule nextToken_at_paren [OF ret code])
  show ?thesis
  proof (cases r)
    case (Inl e')
    with r(1) have "nextToken_paren ig st = Some (Inl e')"
      by (simp add: paren_url [OF um] st0_def [symmetric])
    then have "nextToken ig st = Some (Inl e')"
      by (simp add: nt finish_def)
    moreover from r(2) Inl have "e' = CssSyntaxError ''Unclosed bracket'' (pos st) \<and>
        \<not> (ignore st \<or> ig)"
      by simp
    ultimately show ?thesis by simp
  next
    case (Inr e')
    with r(1) have "nextToken_paren ig st =
        Some (Inr (st\<lparr>buffer := butlast (buffer st),
                      currentToken := Some (Token ''brackets''
                        (slice (css st) (pos st) (e' + 1)) [pos st, e']),
                      pos := e'\<rparr>))"
      by (simp add: paren_url [OF um] st0_def [symmetric])
    then have "nextToken ig st =
        Some (Inr (Some (Token ''brackets'' (slice (css st) (pos st) (e' + 1)) [pos st, e']),
          st\<lparr>buffer := butlast (buffer st),
             currentToken := Some (Token ''brackets''
               (slice (css st) (pos st) (e' + 1)) [pos st, e']),
             pos := e' + 1\<rparr>))"
      by (simp add: nt finish_def)
    moreover from r(2) Inr have "(e' = pos st \<and> (ignore st \<or> ig)) \<or>
          (i_end sp \<le> e' \<and> charCodeAt (css st) e' = Some CLOSE_PARENTHESES)"
      by simp
    ultimately show ?thesis by simp
  qed
qed

text \<open>
  The comparison with the span is strict: with the span from 5 to 7, the token ends at
  the parenthesis at offset 5 in \<open>url(a)b)\<close> and at the parenthesis at offset 7 in
  \<open>url(a${)b)\<close>.
\<close>

lemma url_parenthesis_on_span_boundary:
  "map_option (map_sum id fst)
       (drain False [] (tokenizer ''url(a)b)'' False [\<lparr>i_start = 5, i_end = 7\<rparr>])) =
     Some (Inr [Some (Token ''word'' ''url'' [0, 2]), Some (Token ''brackets'' ''(a)'' [3, 5]),
                Some (Token ''word'' ''b'' [6, 6]), Some (Token '')'' '')'' [7])]) \<and>
   map_option (map_sum id fst)
       (drain False [] (tokenizer ''url(a${)b)'' False [\<lparr>i_start = 5, i_end = 7\<rparr>])) =
     Some (Inr [Some (Token ''word'' ''url'' [0, 2]), Some (Token ''brackets'' ''(a${)'' [3, 7]),
                Some (Token ''word'' ''b'' [8, 8]), Some (Token '')'' '')'' [9])])"
  by code_simp

text \<open>
  Claim C2 says that the \<open>url(...)\<close> token never ends at a closing parenthesis that lies
  inside a span.  The code looks the candidate up in the spans only once per round: the
  parenthesis found by the search that resumes at the end of a span is not looked up
  again.  In \<open>url(${a()}/${b()})\<close>, with the spans from 4 to 9 and from 11 to 16, the first
  candidate, at offset 8, lies inside the first span and is skipped; the search resumed
  at offset 9 finds the parenthesis at offset 15, strictly inside the second span, and the
  token ends there.  The rest of the second span and the parenthesis that closes the URL
  come out as two control tokens.
\<close>

theorem C2_parenthesis_in_second_span:
  "map_option (map_sum id fst)
       (drain False [] (tokenizer ''url(${a()}/${b()})'' False
          [\<lparr>i_start = 4, i_end = 9\<rparr>, \<lparr>i_start = 11, i_end = 16\<rparr>])) =
     Some (Inr [Some (Token ''word'' ''url'' [0, 2]),
                Some (Token ''brackets'' ''(${a()}/${b()'' [3, 15]),
                Some (Token ''}'' ''}'' [16]), Some (Token '')'' '')'' [17])]) \<and>
   charCodeAt ''url(${a()}/${b()})'' 15 = Some CLOSE_PARENTHESES \<and>
   find (\<lambda>item. i_start item < 15 \<and> 15 < i_end item)
     [\<lparr>i_start = 4, i_end = 9\<rparr>, \<lparr>i_start = 11, i_end = 16\<rparr>] =
     Some \<lparr>i_start = 11, i_end = 16\<rparr>"
  by code_simp

section \<open>C3: an unterminated string\<close>

text \<open>
  Claim C3.  For the input \<open>"abc\<close> the first \<open>nextToken\<close> call throws "Unclosed string"
  at offset 0 with the default options.  With \<open>ignoreErrors\<close> the first call returns the
  \<open>string\<close> token \<open>"a\<close> (two characters, offsets 0 and 1), the next call returns the
  word \<open>bc\<close>, and then \<open>endOfFile()\<close> is true.
\<close>

theorem C3_unterminated_string:
  "nextToken False (tokenizer (DOUBLE_QUOTE # ''abc'') False []) =
     Some (Inl (CssSyntaxError ''Unclosed string'' 0)) \<and>
   map_option (map_sum id fst) (nextToken False (tokenizer (DOUBLE_QUOTE # ''abc'') True [])) =
     Some (Inr (Some (Token ''string'' [DOUBLE_QUOTE, CHR ''a''] [0, 1]))) \<and>
   map_option (map_sum id (\<lambda>(ts, st). (ts, endOfFile st)))
       (drain False [] (tokenizer (DOUBLE_QUOTE # ''abc'') True [])) =
     Some (Inr ([Some (Token ''string'' [DOUBLE_QUOTE, CHR ''a''] [0, 1]),
                 Some (Token ''word'' ''bc'' [2, 3])], True))"
  by code_simp

section \<open>C4: the unclosed constructs\<close>

subsection \<open>When the search for the terminator exhausts the input\<close>

lemma escaped_loop_odd:
  "0 \<le> i \<Longrightarrow> i \<le> int (length s) \<Longrightarrow> escaped_loop s i b = (b \<noteq> escaped_at s (nat i))"
proof (induction s i b rule: escaped_loop.induct)
  case (1 s i b)
  show ?case
  proof (cases "charCodeAt s (i - 1) = Some BACKSLASH")
    case True
    from charCodeAt_Some_range [OF True] have r: "1 \<le> i" "i - 1 < int (length s)" by simp_all
    from True r have bs: "s ! nat (i - 1) = BACKSLASH"
      by (simp add: charCodeAt_def)
    from r have n: "nat i = Suc (nat (i - 1))" "nat (i - 1) < length s" by simp_all
    have tk: "take (nat i) s = take (nat (i - 1)) s @ [BACKSLASH]"
      unfolding n(1) using n(2) bs by (simp add: take_Suc_conv_app_nth)
    have e: "escaped_at s (nat i) = (\<not> escaped_at s (nat (i - 1)))"
      by (simp add: escaped_at_def tk)
    from "1.IH" [OF True] r have "escaped_loop s (i - 1) (\<not> b) = ((\<not> b) \<noteq> escaped_at s (nat (i - 1)))"
      by simp
    with True e show ?thesis
      by (auto simp: escaped_loop.simps [of s i b])
  next
    case False
    have "\<not> escaped_at s (nat i)"
    proof (cases "i = 0")
      case True
      then show ?thesis by (simp add: escaped_at_def)
    next
      case nz: False
      with "1.prems" have r: "1 \<le> i" "i - 1 < int (length s)" by simp_all
      with False have bs: "s ! nat (i - 1) \<noteq> BACKSLASH"
        by (simp add: charCodeAt_def)
      from r have n: "nat i = Suc (nat (i - 1))" "nat (i - 1) < length s" by simp_all
      have tk: "take (nat i) s = take (nat (i - 1)) s @ [s ! nat (i - 1)]"
        unfolding n(1) using n(2) by (simp add: take_Suc_conv_app_nth)
      show ?thesis
        using bs by (simp add: escaped_at_def tk)
    qed
    with False show ?thesis
      by (simp add: escaped_loop.simps [of s i b])
  qed
qed

lemma no_terminatorD:
  "no_terminator s c p \<Longrightarrow> p < i \<Longrightarrow> charCodeAt s i = Some c \<Longrightarrow> escaped_loop s i False"
proof -
  assume nt: "no_terminator s c p" and lt: "p < i" and c: "charCodeAt s i = Some c"
  from charCodeAt_Some_range [OF c] have r: "0 \<le> i" "i < int (length s)" by simp_all
  from c r have "s ! nat i = c" by (simp add: charCodeAt_def)
  moreover from r lt have "nat i \<in> set [nat (p + 1) ..< length s]" by auto
  ultimately have "escaped_at s (nat i)"
    using nt by (auto simp: no_terminator_def list_all_iff)
  with escaped_loop_odd [of i s False] r show ?thesis by simp
qed

lemma string_loop_raise:
  "no_terminator (css st) q (pos st) \<Longrightarrow> pos st \<le> n \<Longrightarrow> \<not> (ignore st \<or> ig) \<Longrightarrow>
   string_loop st ig q n = Inl (unclosed st ''string'')"
proof (induction st ig q n rule: string_loop.induct)
  case (1 st ig q n)
  define n' where "n' = indexOf (css st) [q] (n + 1)"
  show ?case
  proof (cases "n' = -1")
    case True
    with "1.prems" show ?thesis
      by (subst string_loop.simps) (simp add: n'_def [symmetric])
  next
    case False
    from indexOf_range [of "css st" "[q]" "n + 1"] False have r: "n + 1 \<le> n'"
      by (auto simp: n'_def)
    from indexOf_found [of "css st" q "n + 1"] False have "charCodeAt (css st) n' = Some q"
      by (simp add: n'_def)
    from no_terminatorD [OF "1.prems"(1) _ this] r "1.prems"(2)
    have esc: "escaped_loop (css st) n' False" by simp
    from "1.IH" [of n'] False esc "1.prems" r
    have "string_loop st ig q n' = Inl (unclosed st ''string'')"
      by (simp add: n'_def)
    with False esc show ?thesis
      by (subst string_loop.simps) (simp add: n'_def [symmetric])
  qed
qed

lemma url_loop_raise:
  assumes ok: "spans_ok (interpolations st)" and nt: "no_terminator (css st) CLOSE_PARENTHESES (pos st)"
    and strict: "\<not> (ignore st \<or> ig)"
  shows "pos st \<le> n \<Longrightarrow> url_loop st ig n = Some (Inl (unclosed st ''bracket''))"
proof (induction "nat (int (length (css st)) - n)" arbitrary: n rule: less_induct)
  case less
  note r = url_next_range [OF ok, of n]
  show ?case
  proof (cases "url_next st n = -1")
    case True
    with strict show ?thesis by (subst url_loop_unfold) simp
  next
    case False
    with r have r': "n + 1 \<le> url_next st n" "url_next st n < int (length (css st))"
      "charCodeAt (css st) (url_next st n) = Some CLOSE_PARENTHESES"
      by simp_all
    from no_terminatorD [OF nt _ r'(3)] r'(1) less.prems
    have esc: "escaped_loop (css st) (url_next st n) False" by simp
    from r' have "nat (int (length (css st)) - url_next st n) < nat (int (length (css st)) - n)"
      by simp
    from less.hyps [OF this] r'(1) less.prems
    have "url_loop st ig (url_next st n) = Some (Inl (unclosed st ''bracket''))" by simp
    with False esc show ?thesis by (subst url_loop_unfold) simp
  qed
qed

lemma search_none:
  "search P r k = -1 \<longleftrightarrow> (\<forall>j < length r. \<not> P (drop j r))"
proof (induction r arbitrary: k)
  case Nil
  show ?case by simp
next
  case (Cons c r)
  show ?case
    by (simp add: Cons.IH [of "Suc k"] All_less_Suc2)
qed

lemma no_comment_end_indexOf:
  assumes "no_comment_end s p" and "0 \<le> p"
  shows "indexOf s ''*/'' (p + 2) = -1"
proof -
  define k where "k = nat (min (max (p + 2) 0) (int (length s)))"
  have eq: "indexOf s ''*/'' (p + 2) = search (starts_with ''*/'') (drop k s) k"
    by (simp add: indexOf_def k_def Let_def)
  have "\<not> starts_with ''*/'' (drop j (drop k s))" if "j < length (drop k s)" for j
  proof -
    from that have "j + k < length s" by simp
    moreover from assms(2) that have "nat (p + 2) \<le> j + k" by (simp add: k_def)
    ultimately have "j + k \<in> set [nat (p + 2) ..< length s]" by simp
    with assms(1) have "\<not> starts_with ''*/'' (drop (j + k) s)"
      by (auto simp: no_comment_end_def list_all_iff)
    then show ?thesis by (simp add: add.commute)
  qed
  then show ?thesis
    unfolding eq by (simp add: search_none)
qed

subsection \<open>The calls after the best-effort token\<close>

lemma nextToken_Inl_kind:
  assumes "returned st = []" and "nextToken ig st = Some (Inl e)"
  shows "\<not> (ignore st \<or> ig) \<and>
     (\<exists>what. what \<in> set unclosed_kinds \<and> e = CssSyntaxError (''Unclosed '' @ what) (pos st))"
  using assms
proof (cases rule: nextToken_Inl_cases)
  case (quote c)
  from string_loop_Inl [OF quote(3)] show ?thesis
    by (simp add: unclosed_def unclosed_kinds_def)
next
  case paren
  from url_loop_degrade(1,2) [OF paren(3) refl refl refl] show ?thesis
    by (simp add: unclosed_def unclosed_kinds_def)
next
  case comment
  then show ?thesis
    by (simp add: unclosed_def unclosed_kinds_def)
qed

lemma drain_total:
  assumes "spans_ok (interpolations st)" and "returned st = []"
  shows "\<exists>res. drain ig acc st = Some res \<and>
     (case res of
        Inl e \<Rightarrow> \<not> (ignore st \<or> ig) \<and>
          (\<exists>what p. what \<in> set unclosed_kinds \<and> pos st \<le> p \<and>
             e = CssSyntaxError (''Unclosed '' @ what) p)
      | Inr (ts, stf) \<Rightarrow> endOfFile stf)"
  using assms
proof (induction "nat (int (length (css st)) - pos st)" arbitrary: st acc rule: less_induct)
  case less
  show ?case
  proof (cases "endOfFile st")
    case True
    then show ?thesis by (simp add: drain_unfold [of ig acc st])
  next
    case False
    with less.prems have lt: "pos st < int (length (css st))"
      by (simp add: endOfFile_def)
    from nextToken_step [OF less.prems(2) lt less.prems(1), of ig]
    obtain res where res: "nextToken ig st = Some res"
      "case res of
        Inl e \<Rightarrow> \<not> (ignore st \<or> ig) \<and> (\<exists>what. e = unclosed st what)
      | Inr (r, st') \<Rightarrow>
          (\<exists>st1. st' = st1\<lparr>pos := pos st1 + 1\<rparr> \<and> r = currentToken st1 \<and>
             (scanned st st1 \<or>
              (st1 = st \<and> charCodeAt (css st) (pos st) = Some DOLLAR_SIGN \<and>
               find (\<lambda>item. i_start item = pos st) (interpolations st) = None)))"
      by blast
    show ?thesis
    proof (cases res)
      case (Inl e)
      with res(1) have nt: "nextToken ig st = Some (Inl e)" by simp
      from nextToken_Inl_kind [OF less.prems(2) nt] obtain what where
        "\<not> (ignore st \<or> ig)" "what \<in> set unclosed_kinds"
        "e = CssSyntaxError (''Unclosed '' @ what) (pos st)"
        by blast
      then have "\<not> (ignore st \<or> ig) \<and>
          (\<exists>what p. what \<in> set unclosed_kinds \<and> pos st \<le> p \<and>
             e = CssSyntaxError (''Unclosed '' @ what) p)"
        by blast
      moreover from False nt have "drain ig acc st = Some (Inl e)"
        by (simp add: drain_unfold [of ig acc st])
      ultimately show ?thesis
        by (intro exI [of _ "Inl e"]) simp
    next
      case (Inr x)
      obtain r st' where x: "x = (r, st')" by (cases x)
      with Inr res(2) obtain st1 where "st' = st1\<lparr>pos := pos st1 + 1\<rparr>" "scanned st st1 \<or> st1 = st"
        by auto
      with res(1) Inr x have st1: "nextToken ig st = Some (Inr (r, st1\<lparr>pos := pos st1 + 1\<rparr>))"
        "scanned st st1 \<or> st1 = st"
        by simp_all
      define st2 where "st2 = st1\<lparr>pos := pos st1 + 1\<rparr>"
      note fr = scanned_frame [OF st1(2), folded st2_def]
      from fr lt have m: "nat (int (length (css st2)) - pos st2) < nat (int (length (css st)) - pos st)"
        by simp
      from less.prems fr have p: "spans_ok (interpolations st2)" "returned st2 = []"
        by simp_all
      from less.hyps [OF m p, of "acc @ [r]"]
      obtain res2 where r2: "drain ig (acc @ [r]) st2 = Some res2"
        "case res2 of
          Inl e \<Rightarrow> \<not> (ignore st2 \<or> ig) \<and>
            (\<exists>what p. what \<in> set unclosed_kinds \<and> pos st2 \<le> p \<and>
               e = CssSyntaxError (''Unclosed '' @ what) p)
        | Inr (ts, stf) \<Rightarrow> endOfFile stf"
        by blast
      have "case res2 of
          Inl e \<Rightarrow> \<not> (ignore st \<or> ig) \<and>
            (\<exists>what p. what \<in> set unclosed_kinds \<and> pos st \<le> p \<and>
               e = CssSyntaxError (''Unclosed '' @ what) p)
        | Inr (ts, stf) \<Rightarrow> endOfFile stf"
      proof (cases res2)
        case (Inl e)
        with r2(2) obtain what p where "\<not> (ignore st2 \<or> ig)" "what \<in> set unclosed_kinds"
          "pos st2 \<le> p" "e = CssSyntaxError (''Unclosed '' @ what) p"
          by auto
        with fr have "\<not> (ignore st \<or> ig)" "what \<in> set unclosed_kinds"
          "pos st \<le> p" "e = CssSyntaxError (''Unclosed '' @ what) p"
          by simp_all
        with Inl show ?thesis by auto
      next
        case (Inr y)
        with r2(2) show ?thesis by simp
      qed
      with r2(1) False st1(1) show ?thesis
        by (simp add: drain_unfold [of ig acc st] st2_def)
    qed
  qed
qed

lemma continues_total:
  assumes "spans_ok (interpolations st)" and "returned st = []"
  shows "continues later st"
proof -
  from drain_total [OF assms, of later "[]"] obtain res where
    r: "drain later [] st = Some res"
    "case res of
        Inl e \<Rightarrow> \<not> (ignore st \<or> later) \<and>
          (\<exists>what p. what \<in> set unclosed_kinds \<and> pos st \<le> p \<and>
             e = CssSyntaxError (''Unclosed '' @ what) p)
      | Inr (ts, stf) \<Rightarrow> endOfFile stf"
    by blast
  show ?thesis
  proof (cases res)
    case (Inl e)
    with r(2) obtain what p where "\<not> (ignore st \<or> later)" "what \<in> set unclosed_kinds"
      "pos st \<le> p" "e = CssSyntaxError (''Unclosed '' @ what) p"
      by auto
    with r(1) Inl show ?thesis
      by (simp add: continues_def)
  next
    case (Inr y)
    with r show ?thesis
      by (cases y) (simp add: continues_def)
  qed
qed

lemma unclosed_raises:
  assumes ret: "returned st = []" and ok: "spans_ok (interpolations st)"
    and uc: "unclosed_construct st what"
  shows "nextToken False (st\<lparr>ignore := False\<rparr>) =
     Some (Inl (CssSyntaxError (''Unclosed '' @ what) (pos st)))"
proof -
  define sts where "sts = st\<lparr>ignore := False\<rparr>"
  have sts: "returned sts = []" "css sts = css st" "pos sts = pos st"
    "interpolations sts = interpolations st" "buffer sts = buffer st" "\<not> ignore sts"
    using ret by (simp_all add: sts_def)
  from uc consider
    (string) q where "what = ''string''" "q = SINGLE_QUOTE \<or> q = DOUBLE_QUOTE"
      "charCodeAt (css st) (pos st) = Some q" "no_terminator (css st) q (pos st)"
    | (bracket) "what = ''bracket''" "charCodeAt (css st) (pos st) = Some OPEN_PARENTHESES"
      "url_mode st" "no_terminator (css st) CLOSE_PARENTHESES (pos st)"
    | (comment) "what = ''comment''" "charCodeAt (css st) (pos st) = Some SLASH"
      "charCodeAt (css st) (pos st + 1) = Some ASTERISK" "no_comment_end (css st) (pos st)"
    unfolding unclosed_construct_def by blast
  then have "nextToken False sts = Some (Inl (CssSyntaxError (''Unclosed '' @ what) (pos st)))"
  proof cases
    case (string q)
    from string(4) have "no_terminator (css sts) q (pos sts)" by (simp add: sts)
    from string_loop_raise [OF this, of "pos sts" False] sts(6)
    have "string_loop sts False q (pos sts) = Inl (unclosed sts ''string'')" by simp
    with string(2) have "nextToken_quote False q sts = Inl (unclosed sts ''string'')"
      by (auto simp: nextToken_quote_def)
    with nextToken_at_quote [OF sts(1) _ string(2), of False] string(1,3) show ?thesis
      by (simp add: sts finish_def unclosed_def)
  next
    case bracket
    define sb where "sb = sts\<lparr>buffer := butlast (buffer sts)\<rparr>"
    have sb: "css sb = css st" "pos sb = pos st" "interpolations sb = interpolations st"
      "\<not> ignore sb"
      by (simp_all add: sb_def sts_def)
    from ok bracket(4) have "spans_ok (interpolations sb)"
      "no_terminator (css sb) CLOSE_PARENTHESES (pos sb)"
      by (simp_all add: sb)
    from url_loop_raise [OF this, of False "pos sb"] sb(4)
    have l: "url_loop sb False (pos sts) = Some (Inl (unclosed sb ''bracket''))"
      by (simp add: sb(1-3) sts)
    from bracket(3) have um: "url_mode sts" by (simp add: url_mode_def sts)
    from l have "nextToken_paren False sts = Some (Inl (unclosed sb ''bracket''))"
      by (simp add: paren_url [OF um] sb_def [symmetric])
    with nextToken_at_paren [OF sts(1), of False] bracket(1,2) show ?thesis
      by (simp add: sts finish_def unclosed_def sb)
  next
    case comment
    from charCodeAt_Some_range [OF comment(2)] have "0 \<le> pos st" by simp
    from no_comment_end_indexOf [OF comment(4) this]
    have "nextToken_default False (Some SLASH) sts = Inl (unclosed sts ''comment'')"
      using comment(2,3) by (simp add: nextToken_default_def sts)
    with nextToken_at_slash [OF sts(1), of False] comment(1,2) show ?thesis
      by (simp add: sts finish_def unclosed_def)
  qed
  then show ?thesis by (simp add: sts_def)
qed

text \<open>
  Every exception of a call with the default options is one of the three, carries the
  cursor, and is thrown at the opening delimiter of its construct; on the same state the
  permissive call returns the best-effort token.
\<close>

lemma unclosed_degrade:
  assumes ret: "returned st = []" and ok: "spans_ok (interpolations st)"
    and err: "nextToken False (st\<lparr>ignore := False\<rparr>) = Some (Inl e)"
  shows "\<exists>what. what \<in> set unclosed_kinds \<and>
     e = CssSyntaxError (''Unclosed '' @ what) (pos st) \<and> opening_delimiter st what \<and>
     (\<forall>ignoreErrors ignoreUnclosed. ignoreErrors \<or> ignoreUnclosed \<longrightarrow>
        (\<exists>st'. nextToken ignoreUnclosed (st\<lparr>ignore := ignoreErrors\<rparr>) =
                 Some (Inr (Some (best_effort st what), st')) \<and>
               ttext (best_effort st what) = slice (css st) (pos st) (pos st') \<and>
               pos st < pos st' \<and> (\<forall>later. continues later st')))"
proof -
  define sts where "sts = st\<lparr>ignore := False\<rparr>"
  have sts: "returned sts = []" "css sts = css st" "pos sts = pos st"
    "interpolations sts = interpolations st" "buffer sts = buffer st"
    using ret by (simp_all add: sts_def)
  from sts(1) err [folded sts_def] show ?thesis
  proof (cases rule: nextToken_Inl_cases)
    case (quote c)
    from quote(1) have code: "charCodeAt (css st) (pos st) = Some c" by (simp add: sts)
    from charCodeAt_Some_range [OF code] have rng: "0 \<le> pos st" "pos st < int (length (css st))"
      by simp_all
    from string_loop_Inl [OF quote(3)] have e: "e = CssSyntaxError ''Unclosed string'' (pos st)"
      by (simp add: unclosed_def sts)
    have perm: "\<exists>st'. nextToken ig2 (st\<lparr>ignore := ign\<rparr>) =
                 Some (Inr (Some (best_effort st ''string''), st')) \<and>
               ttext (best_effort st ''string'') = slice (css st) (pos st) (pos st') \<and>
               pos st < pos st' \<and>
               (\<forall>later. continues later st')"
      if perm: "ign \<or> ig2" for ign ig2
    proof -
      define st2 where "st2 = st\<lparr>ignore := ign\<rparr>"
      have st2: "returned st2 = []" "css st2 = css st" "pos st2 = pos st"
        "interpolations st2 = interpolations st" "ignore st2 = ign"
        using ret by (simp_all add: st2_def)
      from perm have "ignore st2 \<or> ig2" by (simp add: st2)
      from string_loop_degrade [OF quote(3) _ _ this]
      have "string_loop st2 ig2 c (pos st) = Inr (pos st + 1)"
        by (simp add: st2 sts)
      with quote(2) have q: "nextToken_quote ig2 c st2 =
          Inr (st2\<lparr>currentToken := Some (Token ''string''
                  (slice (css st) (pos st) (pos st + 1 + 1)) [pos st, pos st + 1]),
                pos := pos st + 1\<rparr>)"
        by (auto simp: nextToken_quote_def st2)
      define st' where "st' = st2\<lparr>currentToken := Some (Token ''string''
                  (slice (css st) (pos st) (pos st + 1 + 1)) [pos st, pos st + 1]),
                pos := pos st + 1 + 1\<rparr>"
      have tok: "best_effort st ''string'' = Token ''string''
          (slice (css st) (pos st) (pos st + 1 + 1)) [pos st, pos st + 1]"
        using rng by (simp add: best_effort_def slice_take_drop)
      have "nextToken ig2 st2 = Some (Inr (Some (best_effort st ''string''), st'))"
        using nextToken_at_quote [OF st2(1) _ quote(2), of ig2] code q
        by (simp add: st2 finish_def st'_def tok)
      moreover have "ttext (best_effort st ''string'') = slice (css st) (pos st) (pos st')"
        by (simp add: tok st'_def)
      moreover have "pos st < pos st'" by (simp add: st'_def)
      moreover have "\<forall>later. continues later st'"
        using ok by (intro allI continues_total) (simp_all add: st'_def st2)
      ultimately show ?thesis
        unfolding st2_def by blast
    qed
    from quote(2) code have "opening_delimiter st ''string''"
      by (auto simp: opening_delimiter_def)
    with e perm show ?thesis
      by (intro exI [of _ "''string''"]) (simp add: unclosed_kinds_def)
  next
    case paren
    from paren(1) have code: "charCodeAt (css st) (pos st) = Some OPEN_PARENTHESES"
      by (simp add: sts)
    from charCodeAt_Some_range [OF code] have rng: "0 \<le> pos st" "pos st < int (length (css st))"
      by simp_all
    define sb where "sb = sts\<lparr>buffer := butlast (buffer sts)\<rparr>"
    have sb: "css sb = css st" "pos sb = pos st" "interpolations sb = interpolations st"
      by (simp_all add: sb_def sts)
    from paren(3) have loop: "url_loop sb False (pos st) = Some (Inl e)"
      by (simp add: sb_def sts)
    have e: "e = CssSyntaxError ''Unclosed bracket'' (pos st)"
      using url_loop_degrade(1) [OF loop refl refl refl] by (simp add: unclosed_def sb)
    from paren(2) have um: "url_mode st"
      by (simp add: url_mode_def sts)
    have perm: "\<exists>st'. nextToken ig2 (st\<lparr>ignore := ign\<rparr>) =
                 Some (Inr (Some (best_effort st ''bracket''), st')) \<and>
               ttext (best_effort st ''bracket'') = slice (css st) (pos st) (pos st') \<and>
               pos st < pos st' \<and>
               (\<forall>later. continues later st')"
      if perm: "ign \<or> ig2" for ign ig2
    proof -
      define st2 where "st2 = st\<lparr>ignore := ign\<rparr>"
      have st2: "returned st2 = []" "css st2 = css st" "pos st2 = pos st"
        "interpolations st2 = interpolations st" "ignore st2 = ign" "buffer st2 = buffer st"
        using ret by (simp_all add: st2_def)
      define s2b where "s2b = st2\<lparr>buffer := butlast (buffer st2)\<rparr>"
      have s2b: "css s2b = css sb" "pos s2b = pos sb" "interpolations s2b = interpolations sb"
        "ignore s2b = ign"
        by (simp_all add: s2b_def st2 sb)
      from perm have "ignore s2b \<or> ig2" by (simp add: s2b)
      from url_loop_degrade(3) [OF loop s2b(1-3) this]
      have l2: "url_loop s2b ig2 (pos st) = Some (Inr (pos st))"
        by (simp add: sb)
      from um have um2: "url_mode st2" by (simp add: url_mode_def st2)
      define st' where "st' = st2\<lparr>buffer := butlast (buffer st2),
          currentToken := Some (Token ''brackets'' ''('' [pos st, pos st]), pos := pos st + 1\<rparr>"
      have tok: "best_effort st ''bracket'' = Token ''brackets'' ''('' [pos st, pos st]"
        by (simp add: best_effort_def)
      have sl: "slice (css st) (pos st) (pos st + 1) = ''(''"
        by (rule slice_single [OF code])
      have "nextToken_paren ig2 st2 =
          Some (Inr (st2\<lparr>buffer := butlast (buffer st2),
             currentToken := Some (Token ''brackets'' ''('' [pos st, pos st]), pos := pos st\<rparr>))"
        using l2 unfolding s2b_def by (simp add: paren_url [OF um2] st2(2,3) sl)
      then have "nextToken ig2 st2 = Some (Inr (Some (best_effort st ''bracket''), st'))"
        using nextToken_at_paren [OF st2(1), of ig2] code
        by (simp add: st2 finish_def st'_def tok)
      moreover have "ttext (best_effort st ''bracket'') = slice (css st) (pos st) (pos st')"
        by (simp add: tok st'_def sl)
      moreover have "pos st < pos st'" by (simp add: st'_def)
      moreover have "\<forall>later. continues later st'"
        using ok by (intro allI continues_total) (simp_all add: st'_def st2)
      ultimately show ?thesis
        unfolding st2_def by blast
    qed
    from code have "opening_delimiter st ''bracket''"
      by (simp add: opening_delimiter_def)
    with e perm show ?thesis
      by (intro exI [of _ "''bracket''"]) (simp add: unclosed_kinds_def)
  next
    case comment
    from comment(1,2) have code: "charCodeAt (css st) (pos st) = Some SLASH"
      "charCodeAt (css st) (pos st + 1) = Some ASTERISK"
      by (simp_all add: sts)
    from charCodeAt_Some_range [OF code(1)] have rng: "0 \<le> pos st" "pos st < int (length (css st))"
      by simp_all
    from comment(3) have idx: "indexOf (css st) ''*/'' (pos st + 2) = -1"
      by (simp add: sts)
    from comment(5) have e: "e = CssSyntaxError ''Unclosed comment'' (pos st)"
      by (simp add: unclosed_def sts)
    have perm: "\<exists>st'. nextToken ig2 (st\<lparr>ignore := ign\<rparr>) =
                 Some (Inr (Some (best_effort st ''comment''), st')) \<and>
               ttext (best_effort st ''comment'') = slice (css st) (pos st) (pos st') \<and>
               pos st < pos st' \<and>
               (\<forall>later. continues later st')"
      if perm: "ign \<or> ig2" for ign ig2
    proof -
      define st2 where "st2 = st\<lparr>ignore := ign\<rparr>"
      have st2: "returned st2 = []" "css st2 = css st" "pos st2 = pos st"
        "interpolations st2 = interpolations st" "ignore st2 = ign"
        using ret by (simp_all add: st2_def)
      define st' where "st' = st2\<lparr>currentToken := Some (best_effort st ''comment''),
          pos := int (length (css st)) + 1\<rparr>"
      have tok: "best_effort st ''comment'' = Token ''comment''
          (slice (css st) (pos st) (int (length (css st)) + 1)) [pos st, int (length (css st))]"
        using rng by (simp add: best_effort_def slice_take_drop)
      have "nextToken_default ig2 (Some SLASH) st2 =
          Inr (st2\<lparr>currentToken := Some (best_effort st ''comment''),
             pos := int (length (css st))\<rparr>)"
        using perm code idx by (auto simp: nextToken_default_def st2 tok)
      then have "nextToken ig2 st2 = Some (Inr (Some (best_effort st ''comment''), st'))"
        using nextToken_at_slash [OF st2(1), of ig2] code
        by (simp add: st2 finish_def st'_def)
      moreover have "ttext (best_effort st ''comment'') = slice (css st) (pos st) (pos st')"
        by (simp add: tok st'_def)
      moreover have "pos st < pos st'" using rng by (simp add: st'_def)
      moreover have "\<forall>later. continues later st'"
        using ok by (intro allI continues_total) (simp_all add: st'_def st2)
      ultimately show ?thesis
        unfolding st2_def by blast
    qed
    from code have "opening_delimiter st ''comment''"
      by (simp add: opening_delimiter_def)
    with e perm show ?thesis
      by (intro exI [of _ "''comment''"]) (simp add: unclosed_kinds_def)
  qed
qed

text \<open>
  Claim C4.  An unclosed construct at the cursor is a quote after which every occurrence
  of the same quote is escaped, or the opening parenthesis of a raw URL body after which
  every closing parenthesis is escaped, or \<open>/*\<close> with no \<open>*/\<close> after it
  (\<open>unclosed_construct\<close>).  At each of the three, a call with the default options throws
  "Unclosed string", "Unclosed bracket" or "Unclosed comment" with the offset of the
  opening delimiter.  With \<open>ignoreErrors\<close> or \<open>ignoreUnclosed\<close> set, the call on the same
  state throws nothing and returns the best-effort token: the rest of the input for a
  comment, the quote and the character after it (two characters, or one at the end of
  the input) for a string, the parenthesis alone for a bracket.  The text of that token
  is the source between the cursor before and after the call, so nothing is skipped.
  The calls that follow, whatever their \<open>ignoreUnclosed\<close>, come to an end: at
  \<open>endOfFile()\<close>, or, when neither flag is set for them, at the exception of a further
  unclosed construct (\<open>continues\<close>).  The spans are offsets with the start not after the
  end.
\<close>

theorem C4_unclosed_policy:
  assumes "returned st = []" and "spans_ok (interpolations st)"
    and "unclosed_construct st what"
  shows "nextToken False (st\<lparr>ignore := False\<rparr>) =
       Some (Inl (CssSyntaxError (''Unclosed '' @ what) (pos st))) \<and>
     (\<forall>ignoreErrors ignoreUnclosed. ignoreErrors \<or> ignoreUnclosed \<longrightarrow>
        (\<exists>st'. nextToken ignoreUnclosed (st\<lparr>ignore := ignoreErrors\<rparr>) =
                 Some (Inr (Some (best_effort st what), st')) \<and>
               ttext (best_effort st what) = slice (css st) (pos st) (pos st') \<and>
               pos st < pos st' \<and> (\<forall>later. continues later st')))"
proof -
  note raise = unclosed_raises [OF assms]
  from unclosed_degrade [OF assms(1,2) raise] obtain what' where
    w: "CssSyntaxError (''Unclosed '' @ what) (pos st) =
        CssSyntaxError (''Unclosed '' @ what') (pos st)"
    and p: "\<forall>ignoreErrors ignoreUnclosed. ignoreErrors \<or> ignoreUnclosed \<longrightarrow>
        (\<exists>st'. nextToken ignoreUnclosed (st\<lparr>ignore := ignoreErrors\<rparr>) =
                 Some (Inr (Some (best_effort st what'), st')) \<and>
               ttext (best_effort st what') = slice (css st) (pos st) (pos st') \<and>
               pos st < pos st' \<and> (\<forall>later. continues later st'))"
    by blast
  from w have "what' = what" by simp
  with raise p show ?thesis by simp
qed

theorem C4_unclosed_policy_witness:
  "unclosed_construct (tokenizer (DOUBLE_QUOTE # ''abc'') False []) ''string'' \<and>
   nextToken False (tokenizer (DOUBLE_QUOTE # ''abc'') False []) =
     Some (Inl (CssSyntaxError ''Unclosed string'' 0)) \<and>
   (\<exists>st'. nextToken False (tokenizer (DOUBLE_QUOTE # ''abc'') True []) =
       Some (Inr (Some (Token ''string'' [DOUBLE_QUOTE, CHR ''a''] [0, 1]), st')) \<and>
       continues False st') \<and>
   nextToken False (tokenizer ''url(a'' False []) =
     Some (Inr (Some (Token ''word'' ''url'' [0, 2]), url_open_example)) \<and>
   unclosed_construct url_open_example ''bracket'' \<and>
   nextToken False url_open_example = Some (Inl (CssSyntaxError ''Unclosed bracket'' 3)) \<and>
   (\<exists>st'. nextToken True url_open_example =
       Some (Inr (Some (Token ''brackets'' ''('' [3, 3]), st')) \<and>
       continues False st' \<and> continues True st') \<and>
   unclosed_construct (tokenizer ''/* a'' False []) ''comment'' \<and>
   nextToken False (tokenizer ''/* a'' False []) =
     Some (Inl (CssSyntaxError ''Unclosed comment'' 0)) \<and>
   (\<exists>st'. nextToken True (tokenizer ''/* a'' False []) =
       Some (Inr (Some (Token ''comment'' ''/* a'' [0, 4]), st')) \<and>
       continues False st')"
proof -
  define s1 where "s1 = tokenizer (DOUBLE_QUOTE # ''abc'') False []"
  define s3 where "s3 = tokenizer ''/* a'' False []"
  have ret: "returned s1 = []" "returned url_open_example = []" "returned s3 = []"
    by (simp_all add: s1_def s3_def tokenizer_def url_open_example_def)
  have ok: "spans_ok (interpolations s1)" "spans_ok (interpolations url_open_example)"
    "spans_ok (interpolations s3)"
    by (simp_all add: s1_def s3_def tokenizer_def url_open_example_def spans_ok_def)
  have u1: "unclosed_construct s1 ''string''"
    unfolding s1_def by code_simp
  have u2: "unclosed_construct url_open_example ''bracket''"
    by code_simp
  have u3: "unclosed_construct s3 ''comment''"
    unfolding s3_def by code_simp
  have same: "s1\<lparr>ignore := False\<rparr> = s1" "url_open_example\<lparr>ignore := False\<rparr> = url_open_example"
    "s3\<lparr>ignore := False\<rparr> = s3" "s1\<lparr>ignore := True\<rparr> = tokenizer (DOUBLE_QUOTE # ''abc'') True []"
    by (simp_all add: s1_def s3_def tokenizer_def url_open_example_def)
  have be: "best_effort s1 ''string'' = Token ''string'' [DOUBLE_QUOTE, CHR ''a''] [0, 1]"
    "best_effort url_open_example ''bracket'' = Token ''brackets'' ''('' [3, 3]"
    "best_effort s3 ''comment'' = Token ''comment'' ''/* a'' [0, 4]"
    by (simp_all add: best_effort_def s1_def s3_def tokenizer_def url_open_example_def)
  have reached: "nextToken False (tokenizer ''url(a'' False []) =
     Some (Inr (Some (Token ''word'' ''url'' [0, 2]), url_open_example))"
    by code_simp
  note c1 = C4_unclosed_policy [OF ret(1) ok(1) u1, unfolded same be]
  note c2 = C4_unclosed_policy [OF ret(2) ok(2) u2, unfolded same be]
  note c3 = C4_unclosed_policy [OF ret(3) ok(3) u3, unfolded same be]
  from c1 have r1: "nextToken False s1 = Some (Inl (CssSyntaxError (''Unclosed '' @ ''string'') (pos s1)))"
    by (rule conjunct1)
  from c1 [THEN conjunct2, rule_format, of True False] have p1:
    "\<exists>st'. nextToken False (tokenizer (DOUBLE_QUOTE # ''abc'') True []) =
       Some (Inr (Some (Token ''string'' [DOUBLE_QUOTE, CHR ''a''] [0, 1]), st')) \<and>
       continues False st'"
    unfolding same by blast
  from c2 have r2: "nextToken False url_open_example =
      Some (Inl (CssSyntaxError (''Unclosed '' @ ''bracket'') (pos url_open_example)))"
    by (rule conjunct1)
  from c2 [THEN conjunct2, rule_format, of False True] have p2:
    "\<exists>st'. nextToken True url_open_example =
       Some (Inr (Some (Token ''brackets'' ''('' [3, 3]), st')) \<and>
       continues False st' \<and> continues True st'"
    unfolding same by blast
  from c3 have r3: "nextToken False s3 = Some (Inl (CssSyntaxError (''Unclosed '' @ ''comment'') (pos s3)))"
    by (rule conjunct1)
  from c3 [THEN conjunct2, rule_format, of False True] have p3:
    "\<exists>st'. nextToken True s3 =
       Some (Inr (Some (Token ''comment'' ''/* a'' [0, 4]), st')) \<and>
       continues False st'"
    unfolding same by blast
  have pos: "pos s1 = 0" "pos url_open_example = 3" "pos s3 = 0"
    by (simp_all add: s1_def s3_def tokenizer_def url_open_example_def)
  from u1 u2 u3 r1 r2 r3 p1 p2 p3 reached show ?thesis
    unfolding pos unfolding s1_def s3_def by simp
qed


subsection \<open>Only unclosed constructs throw\<close>

text \<open>
  Conversely, a call with the default options throws only at an unclosed construct: at
  a quote or at \<open>/*\<close> exactly when the construct has no terminator, and at the
  parenthesis of a raw URL body without spans exactly when every later closing
  parenthesis is escaped.  With spans the search for the parenthesis can also fail
  because the parentheses that are left lie inside spans.
\<close>

lemma search_first:
  "search P r k \<noteq> -1 \<Longrightarrow> j < nat (search P r k) - k \<Longrightarrow> \<not> P (drop j r)"
proof (induction r arbitrary: k j)
  case Nil
  then show ?case by simp
next
  case (Cons c r)
  show ?case
  proof (cases "P (c # r)")
    case True
    with Cons.prems show ?thesis by simp
  next
    case False
    with Cons.prems have ne: "search P r (Suc k) \<noteq> -1"
      and lt: "j < nat (search P r (Suc k)) - k"
      by simp_all
    show ?thesis
    proof (cases j)
      case 0
      with False show ?thesis by simp
    next
      case (Suc j')
      with lt have "j' < nat (search P r (Suc k)) - Suc k" by simp
      from Cons.IH [OF ne this] Suc show ?thesis by simp
    qed
  qed
qed

lemma indexOf_char_first:
  assumes k: "0 \<le> k" and ne: "indexOf s [c] k \<noteq> -1" and i: "k \<le> i" "i < indexOf s [c] k"
  shows "charCodeAt s i \<noteq> Some c"
proof -
  define m where "m = nat (min (max k 0) (int (length s)))"
  have eq: "indexOf s [c] k = search (starts_with [c]) (drop m s) m"
    by (simp add: indexOf_def m_def Let_def)
  from indexOf_range [of s "[c]" k] ne have r: "indexOf s [c] k < int (length s)" by simp
  with i k have m: "m = nat k" by (simp add: m_def)
  from i k m have "nat i - m < nat (search (starts_with [c]) (drop m s) m) - m"
    unfolding eq [symmetric] by simp
  from search_first [OF ne [unfolded eq] this] i k m
  have ns: "\<not> starts_with [c] (drop (nat i) s)" by simp
  from i r k have lt: "nat i < length s" by simp
  then have "drop (nat i) s = s ! nat i # drop (Suc (nat i)) s"
    by (simp add: Cons_nth_drop_Suc)
  with ns have "s ! nat i \<noteq> c" by simp
  with lt i k show ?thesis by (simp add: charCodeAt_def)
qed

lemma indexOf_char_none:
  assumes k: "0 \<le> k" and none: "indexOf s [c] k = -1" and i: "k \<le> i"
  shows "charCodeAt s i \<noteq> Some c"
proof
  assume c: "charCodeAt s i = Some c"
  from charCodeAt_Some_range [OF c] have r: "0 \<le> i" "i < int (length s)" by simp_all
  define m where "m = nat (min (max k 0) (int (length s)))"
  have eq: "indexOf s [c] k = search (starts_with [c]) (drop m s) m"
    by (simp add: indexOf_def m_def Let_def)
  from i k r have m: "m = nat k" by (simp add: m_def)
  from none [unfolded eq] have "\<forall>j < length (drop m s). \<not> starts_with [c] (drop j (drop m s))"
    by (simp add: search_none)
  moreover from i k r m have "nat i - m < length (drop m s)" by simp
  ultimately have "\<not> starts_with [c] (drop (nat i - m) (drop m s))" by blast
  with i k m have ns: "\<not> starts_with [c] (drop (nat i) s)" by simp
  from r have "drop (nat i) s = s ! nat i # drop (Suc (nat i)) s"
    by (simp add: Cons_nth_drop_Suc)
  with ns have "s ! nat i \<noteq> c" by simp
  with c r show False by (simp add: charCodeAt_def)
qed

lemma string_loop_Inl_escaped:
  "string_loop st ig q n = Inl e \<Longrightarrow> -1 \<le> n \<Longrightarrow> n < i \<Longrightarrow>
   charCodeAt (css st) i = Some q \<Longrightarrow> escaped_loop (css st) i False"
proof (induction st ig q n rule: string_loop.induct)
  case (1 st ig q n)
  define n' where "n' = indexOf (css st) [q] (n + 1)"
  from "1.prems"(1) have *: "(if n' = -1
         then (if ignore st \<or> ig then Inr (pos st + 1) else Inl (unclosed st ''string''))
         else if escaped_loop (css st) n' False then string_loop st ig q n' else Inr n') = Inl e"
    by (simp add: string_loop.simps [of st ig q n] n'_def [symmetric])
  from "1.prems"(2) have k: "0 \<le> n + 1" by simp
  from "1.prems"(3) have ki: "n + 1 \<le> i" by simp
  show ?case
  proof (cases "n' = -1")
    case True
    from indexOf_char_none [OF k True [unfolded n'_def] ki] "1.prems"(4) show ?thesis by simp
  next
    case False
    with * have esc: "escaped_loop (css st) n' False" and rec: "string_loop st ig q n' = Inl e"
      by (auto split: if_splits)
    from indexOf_range [of "css st" "[q]" "n + 1"] False have r: "n + 1 \<le> n'"
      by (auto simp: n'_def)
    consider "i < n'" | "i = n'" | "n' < i" by linarith
    then show ?thesis
    proof cases
      case 1
      from indexOf_char_first [OF k False [unfolded n'_def] ki 1 [unfolded n'_def]] "1.prems"(4)
      show ?thesis by simp
    next
      case 2
      with esc show ?thesis by simp
    next
      case 3
      from "1.IH" [of n'] False esc rec r "1.prems"(2) 3 "1.prems"(4) show ?thesis
        by (simp add: n'_def)
    qed
  qed
qed

lemma url_loop_Inl_escaped:
  assumes ns: "interpolations st = []"
  shows "url_loop st ig n = Some (Inl e) \<Longrightarrow> -1 \<le> n \<Longrightarrow> n < i \<Longrightarrow>
     charCodeAt (css st) i = Some CLOSE_PARENTHESES \<Longrightarrow> escaped_loop (css st) i False"
proof (induction "nat (int (length (css st)) - n)" arbitrary: n rule: less_induct)
  case less
  define n' where "n' = indexOf (css st) '')'' (n + 1)"
  from ns have un: "url_next st n = n'" by (simp add: url_next_def n'_def)
  have "url_loop st ig n = (if n' = -1
      then (if ignore st \<or> ig then Some (Inr (pos st)) else Some (Inl (unclosed st ''bracket'')))
      else if escaped_loop (css st) n' False then url_loop st ig n'
      else Some (Inr n'))"
    by (subst url_loop_unfold) (simp only: un)
  with less.prems(1) have *: "(if n' = -1
      then (if ignore st \<or> ig then Some (Inr (pos st)) else Some (Inl (unclosed st ''bracket'')))
      else if escaped_loop (css st) n' False then url_loop st ig n'
      else Some (Inr n')) = Some (Inl e)"
    by simp
  from less.prems(2) have k: "0 \<le> n + 1" by simp
  from less.prems(3) have ki: "n + 1 \<le> i" by simp
  show ?case
  proof (cases "n' = -1")
    case True
    from indexOf_char_none [OF k True [unfolded n'_def] ki] less.prems(4) show ?thesis by simp
  next
    case False
    with * have esc: "escaped_loop (css st) n' False" and rec: "url_loop st ig n' = Some (Inl e)"
      by (auto split: if_splits)
    from indexOf_range [of "css st" "'')''" "n + 1"] False
    have r: "n + 1 \<le> n'" "n' < int (length (css st))"
      by (auto simp: n'_def)
    consider "i < n'" | "i = n'" | "n' < i" by linarith
    then show ?thesis
    proof cases
      case 1
      from indexOf_char_first [OF k False [unfolded n'_def] ki 1 [unfolded n'_def]] less.prems(4)
      show ?thesis by simp
    next
      case 2
      with esc show ?thesis by simp
    next
      case 3
      from r have "nat (int (length (css st)) - n') < nat (int (length (css st)) - n)" by simp
      from less.hyps [OF this rec _ 3 less.prems(4)] r less.prems(2) show ?thesis by simp
    qed
  qed
qed

lemma no_terminatorI:
  assumes "\<And>i. p < i \<Longrightarrow> charCodeAt s i = Some c \<Longrightarrow> escaped_loop s i False" and "-1 \<le> p"
  shows "no_terminator s c p"
  unfolding no_terminator_def list_all_iff
proof (intro ballI impI)
  fix i assume i: "i \<in> set [nat (p + 1) ..< length s]" and c: "s ! i = c"
  from i assms(2) have r: "p < int i" "i < length s" by auto
  with c have "charCodeAt s (int i) = Some c" by (simp add: charCodeAt_def)
  from assms(1) [OF r(1) this] escaped_loop_odd [of "int i" s False] r show "escaped_at s i"
    by simp
qed

lemma indexOf_no_comment_end:
  assumes "indexOf s ''*/'' (p + 2) = -1" and "0 \<le> p"
  shows "no_comment_end s p"
proof -
  define k where "k = nat (min (max (p + 2) 0) (int (length s)))"
  have eq: "indexOf s ''*/'' (p + 2) = search (starts_with ''*/'') (drop k s) k"
    by (simp add: indexOf_def k_def Let_def)
  from assms(1) [unfolded eq]
  have none: "\<forall>j < length (drop k s). \<not> starts_with ''*/'' (drop j (drop k s))"
    by (simp add: search_none)
  show ?thesis
    unfolding no_comment_end_def list_all_iff
  proof (intro ballI)
    fix i assume "i \<in> set [nat (p + 2) ..< length s]"
    with assms(2) have i: "nat (p + 2) \<le> i" "i < length s" by auto
    with assms(2) have k: "k = nat (p + 2)" by (simp add: k_def)
    from i k have "i - k < length (drop k s)" by simp
    with none have "\<not> starts_with ''*/'' (drop (i - k) (drop k s))" by blast
    with i k show "\<not> starts_with ''*/'' (drop i s)" by simp
  qed
qed

lemma strict_raise_only_unclosed:
  assumes ret: "returned st = []"
    and err: "nextToken False (st\<lparr>ignore := False\<rparr>) = Some (Inl e)"
  shows "\<exists>what. e = CssSyntaxError (''Unclosed '' @ what) (pos st) \<and>
     (unclosed_construct st what \<or>
      (what = ''bracket'' \<and> interpolations st \<noteq> [] \<and> url_mode st \<and>
       charCodeAt (css st) (pos st) = Some OPEN_PARENTHESES))"
proof -
  define sts where "sts = st\<lparr>ignore := False\<rparr>"
  have sts: "returned sts = []" "css sts = css st" "pos sts = pos st"
    "interpolations sts = interpolations st" "buffer sts = buffer st"
    using ret by (simp_all add: sts_def)
  from sts(1) err [folded sts_def] show ?thesis
  proof (cases rule: nextToken_Inl_cases)
    case (quote c)
    from quote(1) have code: "charCodeAt (css st) (pos st) = Some c" by (simp add: sts)
    from charCodeAt_Some_range [OF code] have rng: "0 \<le> pos st" by simp
    from string_loop_Inl [OF quote(3)] have e: "e = CssSyntaxError ''Unclosed string'' (pos st)"
      by (simp add: unclosed_def sts)
    have "no_terminator (css st) c (pos st)"
    proof (rule no_terminatorI)
      fix i assume "pos st < i" "charCodeAt (css st) i = Some c"
      with string_loop_Inl_escaped [OF quote(3), of i] rng show "escaped_loop (css st) i False"
        by (simp add: sts)
    qed (use rng in simp)
    with quote(2) code have "unclosed_construct st ''string''"
      by (auto simp: unclosed_construct_def)
    with e show ?thesis by (intro exI [of _ "''string''"]) simp
  next
    case paren
    from paren(1) have code: "charCodeAt (css st) (pos st) = Some OPEN_PARENTHESES"
      by (simp add: sts)
    from charCodeAt_Some_range [OF code] have rng: "0 \<le> pos st" by simp
    define sb where "sb = sts\<lparr>buffer := butlast (buffer sts)\<rparr>"
    have sb: "css sb = css st" "pos sb = pos st" "interpolations sb = interpolations st"
      by (simp_all add: sb_def sts)
    from paren(3) have loop: "url_loop sb False (pos st) = Some (Inl e)"
      by (simp add: sb_def sts)
    have e: "e = CssSyntaxError ''Unclosed bracket'' (pos st)"
      using url_loop_degrade(1) [OF loop refl refl refl] by (simp add: unclosed_def sb)
    from paren(2) have um: "url_mode st"
      by (simp add: url_mode_def sts)
    show ?thesis
    proof (cases "interpolations st = []")
      case True
      then have ns: "interpolations sb = []" by (simp add: sb)
      have "no_terminator (css st) CLOSE_PARENTHESES (pos st)"
      proof (rule no_terminatorI)
        fix i assume "pos st < i" "charCodeAt (css st) i = Some CLOSE_PARENTHESES"
        with url_loop_Inl_escaped [OF ns loop, of i] rng show "escaped_loop (css st) i False"
          by (simp add: sb)
      qed (use rng in simp)
      with code um have "unclosed_construct st ''bracket''"
        by (simp add: unclosed_construct_def)
      with e show ?thesis by (intro exI [of _ "''bracket''"]) simp
    next
      case False
      with e um code show ?thesis by (intro exI [of _ "''bracket''"]) simp
    qed
  next
    case comment
    from comment(1,2) have code: "charCodeAt (css st) (pos st) = Some SLASH"
      "charCodeAt (css st) (pos st + 1) = Some ASTERISK"
      by (simp_all add: sts)
    from charCodeAt_Some_range [OF code(1)] have rng: "0 \<le> pos st" by simp
    from comment(3) have idx: "indexOf (css st) ''*/'' (pos st + 2) = -1"
      by (simp add: sts)
    from comment(5) have e: "e = CssSyntaxError ''Unclosed comment'' (pos st)"
      by (simp add: unclosed_def sts)
    from indexOf_no_comment_end [OF idx rng] code have "unclosed_construct st ''comment''"
      by (simp add: unclosed_construct_def)
    with e show ?thesis by (intro exI [of _ "''comment''"]) simp
  qed
qed


text \<open>
  The condition on the spans cannot be dropped.  With a span whose end lies before its
  start, a call can move the cursor backwards: for the text \<open>a\<close> and the span from 0 to
  -5 the first call leaves the cursor at -4, and so does the second, which is not at the
  end of the input.
\<close>

lemma span_end_before_start:
  "(case nextToken False (tokenizer ''a'' False [\<lparr>i_start = 0, i_end = -5\<rparr>]) of
      Some (Inr (r1, st1)) \<Rightarrow>
        r1 = Some (Token ''word'' [] [0, -5]) \<and> pos st1 = -4 \<and>
        (case nextToken False st1 of
           Some (Inr (r2, st2)) \<Rightarrow> pos st2 = -4 \<and> \<not> endOfFile st2
         | _ \<Rightarrow> False)
    | _ \<Rightarrow> False)"
  by code_simp

text \<open>
  In the permissive mode no call throws, in any state.
\<close>

lemma permissive_never_throws:
  assumes "returned st = []" and "ignore st \<or> ig"
  shows "nextToken ig st \<noteq> Some (Inl e)"
proof
  assume "nextToken ig st = Some (Inl e)"
  with assms(1) show False
  proof (cases rule: nextToken_Inl_cases)
    case (quote c)
    from string_loop_Inl [OF quote(3)] assms(2) show ?thesis by simp
  next
    case paren
    from url_loop_degrade(2) [OF paren(3) refl refl refl] assms(2) show ?thesis by simp
  next
    case comment
    with assms(2) show ?thesis by simp
  qed
qed

section \<open>C5: the pushback stack\<close>

text \<open>
  Claim C5.  For every token \<open>t\<close> and every scanner state, \<open>back(t)\<close> followed at once by
  \<open>nextToken()\<close> returns \<open>t\<close>, and the state after the two calls (the cursor, the
  pushback stack, the word buffer, the current token) is the state before them.
\<close>

theorem C5_back_then_nextToken:
  "nextToken ignoreUnclosed (back_token t st) = Some (Inr (Some t, st))"
  by (simp add: nextToken_def back_token_def)

section \<open>C6: the dollar sign without a span\<close>

text \<open>
  Claim C6 says that a call at a cursor before the end of the input, with an empty
  pushback stack, always returns a freshly produced token that covers the text at the
  cursor, also for a dollar sign at which no span starts.  On the input \<open>$a\<close> without
  spans the first call assigns no token: it returns undefined and moves the cursor
  past the dollar sign.
\<close>

theorem C6_dollar_without_span:
  "nextToken False (tokenizer ''$a'' False []) =
     Some (Inr (None, (tokenizer ''$a'' False [])\<lparr>pos := 1\<rparr>))"
  by code_simp

text \<open>
  The same happens in every state: at a dollar sign at which no span starts, a call
  returns the token of the call before it, whatever it was, and moves the cursor by one.
\<close>

lemma nextToken_dollar_without_span:
  assumes "returned st = []" and "charCodeAt (css st) (pos st) = Some DOLLAR_SIGN"
    and "find (\<lambda>item. i_start item = pos st) (interpolations st) = None"
  shows "nextToken ig st = Some (Inr (currentToken st, st\<lparr>pos := pos st + 1\<rparr>))"
proof -
  from charCodeAt_Some_range [OF assms(2)] have "\<not> int (length (css st)) \<le> pos st"
    by simp
  with assms show ?thesis
    by (simp add: nextToken_def Let_def is_space_code_def is_control_code_def
        nextToken_default_def finish_def)
qed

section \<open>C7: hexadecimal escapes\<close>

lemma is_hex_not_special:
  "is_hex h \<Longrightarrow> h \<noteq> BACKSLASH \<and> h \<noteq> SLASH \<and> h \<noteq> SPACE \<and> h \<noteq> NEWLINE \<and> h \<noteq> TAB \<and>
     h \<noteq> CR \<and> h \<noteq> FEED"
  by (auto simp: is_hex_def)

lemma backslash_hex_token:
  assumes css: "css st = pre @ replicate k BACKSLASH @ hs @ rest"
    and pos: "pos st = int (length pre)"
    and k: "odd k" and hs: "hs \<noteq> []" "list_all is_hex hs"
    and rest: "case rest of [] \<Rightarrow> True | c # _ \<Rightarrow> \<not> is_hex c"
  shows "currentToken (nextToken_backslash st) =
     Some (Token ''word'' (replicate k BACKSLASH @ hs @ trailing_space rest)
        [pos st, pos st + int (k + length hs + length (trailing_space rest)) - 1])"
proof -
  from k obtain j where j: "k = Suc j" "even j"
    by (cases k) auto
  from hs obtain h hs' where h: "hs = h # hs'" "is_hex h" "list_all is_hex hs'"
    by (cases hs) auto
  note sp = is_hex_not_special [OF h(2)]
  define n0 where "n0 = pos st + int j"
  define n2 where "n2 = n0 + 1 + int (length hs')"
  define nx where "nx = (if charCodeAt (css st) (n2 + 1) = Some SPACE then n2 + 1 else n2)"
  have s1: "css st = pre @ BACKSLASH # replicate j BACKSLASH @ (h # hs' @ rest)"
    by (simp add: css j h)
  have loop: "backslash_loop (css st) (pos st) True = (n0, True)"
    unfolding s1 pos n0_def
    using backslash_loop_run [of "h # hs' @ rest" pre BACKSLASH j True] sp j(2)
    by simp
  have s2: "css st = (pre @ replicate k BACKSLASH) @ h # hs' @ rest"
    by (simp add: css h)
  have at_h: "charCodeAt (css st) (n0 + 1) = Some h"
    unfolding s2 n0_def
    using charCodeAt_at [of "pos st + int j + 1" "pre @ replicate k BACKSLASH" "h # hs' @ rest"]
    by (simp add: pos j)
  have hexl: "hex_loop (css st) (n0 + 1) = n2"
    unfolding s2 n0_def n2_def
    using hex_loop_run [OF rest h(3), of "pre @ replicate k BACKSLASH" h]
    by (simp add: pos j add.commute)
  have s3: "css st = (pre @ replicate k BACKSLASH @ hs) @ rest"
    by (simp add: css)
  have at_rest: "charCodeAt (css st) (n2 + 1) = (case rest of [] \<Rightarrow> None | c # _ \<Rightarrow> Some c)"
    unfolding s3 by (rule charCodeAt_at) (simp add: pos j h n0_def n2_def)
  have nx: "nx = pos st + int (k + length hs + length (trailing_space rest)) - 1"
    unfolding nx_def at_rest
    by (simp add: trailing_space_def j h n0_def n2_def split: list.splits)
  have s4: "css st = pre @ (replicate k BACKSLASH @ hs @ trailing_space rest) @
      drop (length (trailing_space rest)) rest"
    by (simp add: css trailing_space_def split: list.splits)
  have sl: "slice (css st) (pos st) (nx + 1) = replicate k BACKSLASH @ hs @ trailing_space rest"
    by (rule slice_append [OF s4]) (simp_all add: pos nx)
  have "currentToken (nextToken_backslash st) =
      Some (Token ''word'' (slice (css st) (pos st) (nx + 1)) [pos st, nx])"
    using sp by (simp add: nextToken_backslash_def loop at_h hexl RE_HEX_ESCAPE_at_def h(2) nx_def Let_def)
  then have "currentToken (nextToken_backslash st) =
      Some (Token ''word'' (replicate k BACKSLASH @ hs @ trailing_space rest) [pos st, nx])"
    by (simp only: sl)
  then show ?thesis
    by (simp only: nx)
qed

text \<open>
  Claim C7, as amended.  When the cursor is at a run of \<open>k\<close> backslashes, \<open>k\<close> odd, that
  is followed by a hexadecimal digit, the \<open>word\<close> token covers the backslashes, the
  whole run \<open>hs\<close> of hexadecimal digits that follows, however long, and one space
  character if the run is followed by one.
\<close>

theorem C7_hex_escape_run:
  assumes "returned st = []"
    and "css st = pre @ replicate k BACKSLASH @ hs @ rest"
    and "pos st = int (length pre)"
    and "odd k" and "hs \<noteq> []" and "list_all is_hex hs"
    and "case rest of [] \<Rightarrow> True | c # _ \<Rightarrow> \<not> is_hex c"
  shows "map_option (map_sum id fst) (nextToken ignoreUnclosed st) =
     Some (Inr (Some (Token ''word'' (replicate k BACKSLASH @ hs @ trailing_space rest)
        [pos st, pos st + int (k + length hs + length (trailing_space rest)) - 1])))"
proof -
  from assms(4) obtain j where j: "k = Suc j"
    by (cases k) auto
  have "charCodeAt (css st) (pos st) = Some BACKSLASH"
    unfolding assms(2) using charCodeAt_at [OF assms(3), of "replicate k BACKSLASH @ hs @ rest"]
    by (simp add: j)
  from nextToken_at_backslash [OF assms(1) this]
  have "map_option (map_sum id fst) (nextToken ignoreUnclosed st) =
      Some (Inr (currentToken (nextToken_backslash st)))"
    by (simp add: finish_def)
  then show ?thesis
    by (simp only: backslash_hex_token [OF assms(2-7)])
qed

theorem C7_hex_escape_run_witness:
  "map_option (map_sum id fst) (nextToken False (tokenizer (BACKSLASH # ''1234567 x'') False [])) =
     Some (Inr (Some (Token ''word'' (BACKSLASH # ''1234567 '') [0, 8])))"
proof -
  have "map_option (map_sum id fst)
      (nextToken False (tokenizer (BACKSLASH # ''1234567 x'') False [])) =
     Some (Inr (Some (Token ''word''
       (replicate 1 BACKSLASH @ ''1234567'' @ trailing_space '' x'')
       [pos (tokenizer (BACKSLASH # ''1234567 x'') False []),
        pos (tokenizer (BACKSLASH # ''1234567 x'') False []) +
          int (1 + length ''1234567'' + length (trailing_space '' x'')) - 1])))"
    by (rule C7_hex_escape_run [where pre = "[]"])
       (simp_all add: tokenizer_def is_hex_def)
  then show ?thesis
    by (simp add: tokenizer_def trailing_space_def)
qed

text \<open>
  The claim as stated bounds the run by six hexadecimal digits.  On a backslash followed
  by seven digits the token covers all seven.
\<close>

theorem C7_seven_hex_digits:
  "map_option (map_sum id fst) (nextToken False (tokenizer (BACKSLASH # ''1234567'') False [])) =
     Some (Inr (Some (Token ''word'' (BACKSLASH # ''1234567'') [0, 7])))"
  by code_simp

section \<open>C8: which parenthesis starts a raw URL body\<close>

lemma paren_mode:
  assumes "returned st = []" and "charCodeAt (css st) (pos st) = Some OPEN_PARENTHESES"
  shows "nextToken ig st =
     (if url_mode st then url_body_result ig st else Some (Inr (plain_paren_result st)))"
proof (cases "url_mode st")
  case True
  then show ?thesis
    by (simp add: nextToken_at_paren [OF assms] paren_url url_body_result_def finish_def
        split: option.split sum.split)
next
  case False
  then show ?thesis
    by (simp add: nextToken_at_paren [OF assms] paren_normal plain_paren_result_def finish_def
        Let_def)
qed

lemma quote_buffer: "nextToken_quote ig c st = Inr st1 \<Longrightarrow> buffer st1 = buffer st"
  by (auto simp: nextToken_quote_def Let_def split: sum.splits)

lemma paren_buffer: "nextToken_paren ig st = Some (Inr st1) \<Longrightarrow> buffer st1 = butlast (buffer st)"
  by (auto simp: nextToken_paren_unfold split: if_splits option.splits sum.splits)

lemma default_buffer_exact:
  assumes "nextToken_default ig code st = Inr st1"
  shows "if (if code = Some DOLLAR_SIGN
             then find (\<lambda>item. i_start item = pos st) (interpolations st) \<noteq> None
             else \<not> (code = Some SLASH \<and> charCodeAt (css st) (pos st + 1) = Some ASTERISK))
         then \<exists>t. currentToken st1 = Some t \<and> tkind t = ''word'' \<and> buffer st1 = buffer st @ [t]
         else buffer st1 = buffer st"
proof (cases "code = Some DOLLAR_SIGN")
  case True
  with assms show ?thesis
    by (auto simp: nextToken_default_def Let_def split: option.splits)
next
  case nd: False
  show ?thesis
  proof (cases "code = Some SLASH \<and> charCodeAt (css st) (pos st + 1) = Some ASTERISK")
    case True
    with nd assms show ?thesis
      by (auto simp: nextToken_default_def Let_def split: if_splits)
  next
    case False
    with nd assms show ?thesis
      by (auto simp: nextToken_default_def Let_def)
  qed
qed

lemma nextToken_buffer_exact:
  assumes ret: "returned st = []" and nt: "nextToken ig st = Some (Inr (r, st'))"
  shows "buffer st' =
       (if charCodeAt (css st) (pos st) = Some OPEN_PARENTHESES then butlast (buffer st)
        else if word_start st then buffer st @ [the r] else buffer st) \<and>
     (word_start st \<longrightarrow> (\<exists>t. r = Some t \<and> tkind t = ''word''))"
proof (cases "pos st < int (length (css st))")
  case False
  with ret nt have "st' = st" by (simp add: nextToken_def)
  moreover from False have "charCodeAt (css st) (pos st) = None"
    by (simp add: charCodeAt_def)
  moreover from False have "\<not> word_start st" by (simp add: word_start_def Let_def)
  ultimately show ?thesis by simp
next
  case True
  from ret True show ?thesis
  proof (cases rule: nextToken_dispatch [where ig = ig])
    case space
    from space(1) have "\<not> word_start st" "charCodeAt (css st) (pos st) \<noteq> Some OPEN_PARENTHESES"
      by (auto simp: word_start_def Let_def is_space_code_def)
    with space(2) nt show ?thesis
      by (auto simp: finish_def nextToken_space_def Let_def)
  next
    case (control c)
    from control(1,2) have "\<not> word_start st" "charCodeAt (css st) (pos st) \<noteq> Some OPEN_PARENTHESES"
      by (auto simp: word_start_def Let_def is_control_code_def)
    with control(3) nt show ?thesis
      by (auto simp: finish_def nextToken_control_def Let_def)
  next
    case paren
    with nt obtain x where x: "nextToken_paren ig st = Some x" "finish x = Inr (r, st')"
      by auto
    from paren(1) have "\<not> word_start st" by (simp add: word_start_def Let_def)
    with finish_Inr [OF x(2)] x(1) paren_buffer [of ig st] paren(1) show ?thesis
      by auto
  next
    case (quote c)
    with nt have f: "finish (nextToken_quote ig c st) = Inr (r, st')" by simp
    from quote(1,2) have "\<not> word_start st" "charCodeAt (css st) (pos st) \<noteq> Some OPEN_PARENTHESES"
      by (auto simp: word_start_def Let_def)
    with finish_Inr [OF f] quote_buffer [of ig c st] show ?thesis
      by auto
  next
    case at
    from at(1) have "\<not> word_start st" "charCodeAt (css st) (pos st) \<noteq> Some OPEN_PARENTHESES"
      by (auto simp: word_start_def Let_def)
    with at(2) nt show ?thesis
      by (auto simp: finish_def nextToken_at_def Let_def)
  next
    case backslash
    from backslash(1) have "\<not> word_start st" "charCodeAt (css st) (pos st) \<noteq> Some OPEN_PARENTHESES"
      by (auto simp: word_start_def Let_def)
    with backslash(2) nt show ?thesis
      by (auto simp: finish_def nextToken_backslash_def Let_def split: prod.splits)
  next
    case default
    define code where "code = charCodeAt (css st) (pos st)"
    from default nt have f: "finish (nextToken_default ig code st) = Inr (r, st')"
      by (simp add: code_def)
    from finish_Inr [OF f] obtain st1 where st1: "nextToken_default ig code st = Inr st1"
      "r = currentToken st1" "st' = st1\<lparr>pos := pos st1 + 1\<rparr>"
      by blast
    have ws: "word_start st = (if code = Some DOLLAR_SIGN
             then find (\<lambda>item. i_start item = pos st) (interpolations st) \<noteq> None
             else \<not> (code = Some SLASH \<and> charCodeAt (css st) (pos st + 1) = Some ASTERISK))"
      using default(1,2,3,5,6,7,8) True
      by (simp add: word_start_def Let_def code_def [symmetric])
    from default_buffer_exact [OF st1(1)] st1(2,3) default(1) show ?thesis
      unfolding ws [symmetric] by (auto simp: code_def)
  qed
qed

lemma nextToken_returned:
  assumes ret: "returned st = []" and nt: "nextToken ig st = Some (Inr (r, st'))"
  shows "returned st' = []"
proof (cases "pos st < int (length (css st))")
  case False
  with ret nt show ?thesis by (simp add: nextToken_def)
next
  case True
  from ret True show ?thesis
  proof (cases rule: nextToken_dispatch [where ig = ig])
    case space
    with nt ret show ?thesis
      by (auto simp: finish_def nextToken_space_def Let_def)
  next
    case (control c)
    with nt ret show ?thesis
      by (auto simp: finish_def nextToken_control_def Let_def)
  next
    case paren
    with nt obtain x where x: "nextToken_paren ig st = Some x" "finish x = Inr (r, st')"
      by auto
    from finish_Inr [OF x(2)] obtain st1 where st1: "x = Inr st1" "st' = st1\<lparr>pos := pos st1 + 1\<rparr>"
      by blast
    from x(1) st1(1) ret have "returned st1 = []"
      by (auto simp: nextToken_paren_unfold split: if_splits option.splits sum.splits)
    with st1(2) show ?thesis by simp
  next
    case (quote c)
    with nt have f: "finish (nextToken_quote ig c st) = Inr (r, st')" by simp
    from finish_Inr [OF f] obtain st1 where st1: "nextToken_quote ig c st = Inr st1"
      "st' = st1\<lparr>pos := pos st1 + 1\<rparr>"
      by blast
    from st1(1) ret have "returned st1 = []"
      by (auto simp: nextToken_quote_def Let_def split: sum.splits)
    with st1(2) show ?thesis by simp
  next
    case at
    with nt ret show ?thesis
      by (auto simp: finish_def nextToken_at_def Let_def)
  next
    case backslash
    with nt ret show ?thesis
      by (auto simp: finish_def nextToken_backslash_def Let_def split: prod.splits)
  next
    case default
    with nt have f: "finish (nextToken_default ig (charCodeAt (css st) (pos st)) st) = Inr (r, st')"
      by simp
    from finish_Inr [OF f] obtain st1 where
      st1: "nextToken_default ig (charCodeAt (css st) (pos st)) st = Inr st1"
      "st' = st1\<lparr>pos := pos st1 + 1\<rparr>"
      by blast
    from st1(1) ret have "returned st1 = []"
      by (auto simp: nextToken_default_def Let_def split: if_splits option.splits)
    with st1(2) show ?thesis by simp
  qed
qed

lemma quiet_run_buffer:
  "returned st = [] \<Longrightarrow> quiet_run igs st = Some st2 \<Longrightarrow>
   buffer st2 = buffer st \<and> returned st2 = []"
proof (induction igs arbitrary: st)
  case Nil
  then show ?case by simp
next
  case (Cons ig igs)
  from Cons.prems(2) have q: "charCodeAt (css st) (pos st) \<noteq> Some OPEN_PARENTHESES"
    "\<not> word_start st"
    by (auto split: if_splits)
  with Cons.prems obtain r st1 where nt: "nextToken ig st = Some (Inr (r, st1))"
    and run: "quiet_run igs st1 = Some st2"
    by (auto split: option.splits sum.splits)
  from nextToken_buffer_exact [OF Cons.prems(1) nt] q have b: "buffer st1 = buffer st" by simp
  from nextToken_returned [OF Cons.prems(1) nt] have "returned st1 = []" .
  from Cons.IH [OF this run] b show ?case by simp
qed

text \<open>
  Claim C8, as amended.  At an opening parenthesis the raw URL body is scanned exactly
  when \<open>url_mode\<close> holds: the last token on the word buffer has the text \<open>url\<close> (and the
  next character is neither a quote nor white space); otherwise the parenthesis is
  handled by the normal mode.  A call changes the word buffer according to the character
  at the cursor: a call at an opening parenthesis pops the last token; a call at the
  start of a bare word or of an interpolation (\<open>word_start\<close>) returns a \<open>word\<close> token and
  pushes it; every other call (white space, control characters, strings, comments,
  at-words, escapes, which are \<open>word\<close> tokens too, and the end of the input) leaves the
  buffer as it is.  So does any run of such calls (\<open>quiet_run\<close>): the tokens emitted
  between the word \<open>url\<close> and the parenthesis that are not bare words or interpolations
  do not prevent the URL mode.
\<close>

theorem C8_url_mode_by_buffered_word:
  assumes "returned st = []"
  shows "(charCodeAt (css st) (pos st) = Some OPEN_PARENTHESES \<longrightarrow>
       nextToken ig st =
         (if url_mode st then url_body_result ig st else Some (Inr (plain_paren_result st)))) \<and>
     (\<forall>r st'. nextToken ig st = Some (Inr (r, st')) \<longrightarrow>
        buffer st' =
          (if charCodeAt (css st) (pos st) = Some OPEN_PARENTHESES then butlast (buffer st)
           else if word_start st then buffer st @ [the r] else buffer st) \<and>
        (word_start st \<longrightarrow> (\<exists>t. r = Some t \<and> tkind t = ''word''))) \<and>
     (\<forall>igs st'. quiet_run igs st = Some st' \<longrightarrow> buffer st' = buffer st \<and> returned st' = [])"
  using paren_mode [OF assms] nextToken_buffer_exact [OF assms] quiet_run_buffer [OF assms]
  by blast

theorem C8_url_mode_by_buffered_word_witness:
  "word_start (tokenizer ''url (a/b)'' False []) \<and>
   (\<exists>st1. nextToken False (tokenizer ''url (a/b)'' False []) =
       Some (Inr (Some (Token ''word'' ''url'' [0, 2]), st1)) \<and>
     buffer st1 = [Token ''word'' ''url'' [0, 2]] \<and>
     quiet_run [False] st1 = Some url_space_example) \<and>
   buffer url_space_example = [Token ''word'' ''url'' [0, 2]] \<and>
   returned url_space_example = [] \<and>
   charCodeAt (css url_space_example) (pos url_space_example) = Some OPEN_PARENTHESES \<and>
   url_mode url_space_example \<and>
   nextToken False url_space_example = url_body_result False url_space_example \<and>
   map_option (map_sum id (\<lambda>(r, st'). (r, buffer st'))) (nextToken False url_space_example) =
     Some (Inr (Some (Token ''brackets'' ''(a/b)'' [4, 8]), [])) \<and>
   \<not> word_start (tokenizer (BACKSLASH # ''a('') False []) \<and>
   map_option (map_sum id (\<lambda>(r, st'). (r, buffer st')))
       (nextToken False (tokenizer (BACKSLASH # ''a('') False [])) =
     Some (Inr (Some (Token ''word'' (BACKSLASH # ''a'') [0, 1]), []))"
proof -
  define s1 where "s1 = tokenizer ''url (a/b)'' False []"
  define s2 where "s2 = tokenizer (BACKSLASH # ''a('') False []"
  have ret: "returned s1 = []" "returned s2 = []" "buffer s1 = []" "buffer s2 = []"
    by (simp_all add: s1_def s2_def tokenizer_def)
  have w1: "word_start s1" unfolding s1_def by code_simp
  have w2: "\<not> word_start s2" unfolding s2_def by code_simp
  have c2: "charCodeAt (css s1) (pos s1) \<noteq> Some OPEN_PARENTHESES"
    "charCodeAt (css s2) (pos s2) \<noteq> Some OPEN_PARENTHESES"
    by (simp_all add: s1_def s2_def tokenizer_def charCodeAt_def)
  have reached: "case nextToken False s1 of
      Some (Inr (t1, st1)) \<Rightarrow>
        t1 = Some (Token ''word'' ''url'' [0, 2]) \<and>
        quiet_run [False] st1 = Some url_space_example
    | _ \<Rightarrow> False"
    unfolding s1_def by code_simp
  then obtain st1 where n1: "nextToken False s1 = Some (Inr (Some (Token ''word'' ''url'' [0, 2]), st1))"
    and q1: "quiet_run [False] st1 = Some url_space_example"
    by (cases "nextToken False s1") (auto simp del: quiet_run.simps split: sum.splits)
  from C8_url_mode_by_buffered_word [OF ret(1), of False, THEN conjunct2, THEN conjunct1,
      rule_format, OF n1]
  have b1: "buffer st1 = [Token ''word'' ''url'' [0, 2]]"
    using w1 c2 ret by simp
  from nextToken_returned [OF ret(1) n1] have r1: "returned st1 = []" .
  from C8_url_mode_by_buffered_word [OF r1, of False, THEN conjunct2, THEN conjunct2,
      rule_format, OF q1] b1
  have b2: "buffer url_space_example = [Token ''word'' ''url'' [0, 2]]"
    and h1: "returned url_space_example = []"
    by simp_all
  have h2: "charCodeAt (css url_space_example) (pos url_space_example) = Some OPEN_PARENTHESES"
    by (simp add: url_space_example_def charCodeAt_def)
  have h3: "url_mode url_space_example"
    unfolding url_mode_def b2 by (simp add: url_space_example_def charCodeAt_def)
  from C8_url_mode_by_buffered_word [OF h1, of False] h2 h3
  have m: "nextToken False url_space_example = url_body_result False url_space_example"
    by simp
  have v: "map_option (map_sum id fst) (nextToken False url_space_example) =
     Some (Inr (Some (Token ''brackets'' ''(a/b)'' [4, 8])))"
    by code_simp
  then obtain st3 where n3: "nextToken False url_space_example =
      Some (Inr (Some (Token ''brackets'' ''(a/b)'' [4, 8]), st3))"
    by (cases "nextToken False url_space_example") (auto simp: map_sum_def split: sum.splits)
  from C8_url_mode_by_buffered_word [OF h1, of False, THEN conjunct2, THEN conjunct1,
      rule_format, OF n3] h2 b2
  have b3: "buffer st3 = []" by simp
  from n3 b3 have e3: "map_option (map_sum id (\<lambda>(r, st'). (r, buffer st')))
      (nextToken False url_space_example) =
     Some (Inr (Some (Token ''brackets'' ''(a/b)'' [4, 8]), []))"
    by simp
  have t2: "map_option (map_sum id fst) (nextToken False s2) =
      Some (Inr (Some (Token ''word'' (BACKSLASH # ''a'') [0, 1])))"
    unfolding s2_def by code_simp
  then obtain st2 where n2: "nextToken False s2 =
      Some (Inr (Some (Token ''word'' (BACKSLASH # ''a'') [0, 1]), st2))"
    by (cases "nextToken False s2") (auto simp: map_sum_def split: sum.splits)
  from C8_url_mode_by_buffered_word [OF ret(2), of False, THEN conjunct2, THEN conjunct1,
      rule_format, OF n2]
  have b2': "buffer st2 = []"
    using w2 c2 ret by simp
  from n2 b2' have e2: "map_option (map_sum id (\<lambda>(r, st'). (r, buffer st'))) (nextToken False s2) =
     Some (Inr (Some (Token ''word'' (BACKSLASH # ''a'') [0, 1]), []))"
    by simp
  from n1 b1 q1 have ex: "\<exists>st1. nextToken False s1 =
       Some (Inr (Some (Token ''word'' ''url'' [0, 2]), st1)) \<and>
     buffer st1 = [Token ''word'' ''url'' [0, 2]] \<and>
     quiet_run [False] st1 = Some url_space_example"
    by blast
  from w1 ex b2 h1 h2 h3 m e3 w2 e2 show ?thesis
    unfolding s1_def s2_def by blast
qed


text \<open>
  The claim as stated sends the parenthesis to the normal mode as soon as any token lies
  between the word \<open>url\<close> and the parenthesis.  In \<open>url (a/b)\<close> a space token lies between
  them, and the parenthesised part is still scanned as a raw URL body, one \<open>brackets\<close>
  token; the normal mode, as after the word \<open>rgb\<close>, emits the bare parenthesis because of
  the slash.
\<close>

theorem C8_space_between_url_and_parenthesis:
  "map_option (map_sum id fst) (drain False [] (tokenizer ''url (a/b)'' False [])) =
     Some (Inr [Some (Token ''word'' ''url'' [0, 2]), Some (Token ''space'' '' '' []),
                Some (Token ''brackets'' ''(a/b)'' [4, 8])]) \<and>
   map_option (map_sum id fst) (drain False [] (tokenizer ''rgb (a/b)'' False [])) =
     Some (Inr [Some (Token ''word'' ''rgb'' [0, 2]), Some (Token ''space'' '' '' []),
                Some (Token ''('' ''('' [4]), Some (Token ''word'' ''a/b'' [5, 7]),
                Some (Token '')'' '')'' [8])])"
  by code_simp

section \<open>C9: \<open>url(foo.png)\<close>\<close>

text \<open>
  Claim C9, as amended.  For the input \<open>url(foo.png)\<close> without interpolation spans the
  scanner produces the word \<open>url\<close> (offsets 0 to 2), then one \<open>brackets\<close> token whose text
  is the parenthesised part \<open>(foo.png)\<close> (offsets 3 to 11), and nothing else.
\<close>

theorem C9_url_foo_png:
  "map_option (map_sum id (\<lambda>(ts, st). (ts, endOfFile st)))
       (drain False [] (tokenizer ''url(foo.png)'' False [])) =
     Some (Inr ([Some (Token ''word'' ''url'' [0, 2]),
                 Some (Token ''brackets'' ''(foo.png)'' [3, 11])], True))"
  by code_simp

text \<open>
  The claim as stated has the \<open>brackets\<close> token span the whole of \<open>url(foo.png)\<close>.  No
  token of the scan has that text: the \<open>brackets\<close> token starts at the parenthesis.
\<close>

theorem C9_brackets_not_whole_input:
  "map_option (map_sum id (\<lambda>(ts, st). Some ''url(foo.png)'' \<in> set (map (map_option ttext) ts)))
       (drain False [] (tokenizer ''url(foo.png)'' False [])) =
     Some (Inr False)"
  by code_simp

section \<open>C10: the offsets a token carries\<close>

lemma spans_in_text_ok: "spans_in_text st \<Longrightarrow> spans_ok (interpolations st)"
  by (auto simp: spans_in_text_def spans_ok_def list_all_iff)

lemma spans_in_textD:
  "spans_in_text st \<Longrightarrow> find P (interpolations st) = Some it \<Longrightarrow>
   P it \<and> i_start it \<le> i_end it \<and> i_end it < int (length (css st))"
  by (auto simp: spans_in_text_def list_all_iff dest: find_SomeD)

lemma extent_finish:
  assumes "scanned st st1" and "extent1 st ig st1"
  shows "\<exists>t. currentToken st1 = Some t \<and> token_extent st ig t (st1\<lparr>pos := pos st1 + 1\<rparr>)"
proof -
  from assms(2) obtain t where t: "currentToken st1 = Some t"
    by (auto simp: extent1_def split: option.splits)
  with assms have "token_extent st ig t (st1\<lparr>pos := pos st1 + 1\<rparr>)"
    by (auto simp: extent1_def scanned_def token_extent_def)
  with t show ?thesis by simp
qed

lemma space_loop_le: "n < int (length s) \<Longrightarrow> space_loop s n \<le> int (length s)"
proof (induction s n rule: space_loop.induct)
  case (1 s n)
  show ?case
  proof (cases "is_space_code (charCodeAt s (n + 1))")
    case True
    from is_space_code_range [OF True] "1.IH" [OF True] True show ?thesis
      by (simp add: space_loop.simps [of s n])
  next
    case False
    with "1.prems" show ?thesis by (simp add: space_loop.simps [of s n])
  qed
qed

lemma hex_loop_lt: "n < int (length s) \<Longrightarrow> hex_loop s n < int (length s)"
proof (induction s n rule: hex_loop.induct)
  case (1 s n)
  show ?case
  proof (cases "RE_HEX_ESCAPE_at s (n + 1)")
    case True
    from RE_HEX_ESCAPE_at_range [OF True] "1.IH" [OF True] True show ?thesis
      by (simp add: hex_loop.simps [of s n])
  next
    case False
    with "1.prems" show ?thesis by (simp add: hex_loop.simps [of s n])
  qed
qed

lemma backslash_loop_spec:
  "backslash_loop s n e = (m, e') \<Longrightarrow>
   n \<le> m \<and> (\<forall>i. n < i \<and> i \<le> m \<longrightarrow> charCodeAt s i = Some BACKSLASH) \<and>
   charCodeAt s (m + 1) \<noteq> Some BACKSLASH \<and> e' = (e = even (nat (m - n)))"
proof (induction s n e rule: backslash_loop.induct)
  case (1 s n e)
  show ?case
  proof (cases "charCodeAt s (n + 1) = Some BACKSLASH")
    case True
    with "1.prems" have "backslash_loop s (n + 1) (\<not> e) = (m, e')"
      by (simp add: backslash_loop.simps [of s n])
    from "1.IH" [OF True this] have ih: "n + 1 \<le> m"
      "\<forall>i. n + 1 < i \<and> i \<le> m \<longrightarrow> charCodeAt s i = Some BACKSLASH"
      "charCodeAt s (m + 1) \<noteq> Some BACKSLASH" "e' = ((\<not> e) = even (nat (m - (n + 1))))"
      by simp_all
    have "charCodeAt s i = Some BACKSLASH" if "n < i \<and> i \<le> m" for i
    proof (cases "i = n + 1")
      case True
      with \<open>charCodeAt s (n + 1) = Some BACKSLASH\<close> show ?thesis by simp
    next
      case False
      with that ih(2) show ?thesis by simp
    qed
    moreover from ih(1) have "nat (m - n) = Suc (nat (m - (n + 1)))" by simp
    ultimately show ?thesis
      using ih by auto
  next
    case False
    with "1.prems" show ?thesis
      by (auto simp: backslash_loop.simps [of s n])
  qed
qed

lemma string_loop_Inr:
  "string_loop st ig q n = Inr e \<Longrightarrow>
   (e = pos st + 1 \<and> (ignore st \<or> ig)) \<or> e < int (length (css st))"
proof (induction st ig q n rule: string_loop.induct)
  case (1 st ig q n)
  define n' where "n' = indexOf (css st) [q] (n + 1)"
  from "1.prems" have *: "(if n' = -1
         then (if ignore st \<or> ig then Inr (pos st + 1) else Inl (unclosed st ''string''))
         else if escaped_loop (css st) n' False then string_loop st ig q n' else Inr n') = Inr e"
    by (simp add: string_loop.simps [of st ig q n] n'_def [symmetric])
  show ?case
  proof (cases "n' = -1")
    case True
    with * show ?thesis by (auto split: if_splits)
  next
    case False
    from indexOf_range [of "css st" "[q]" "n + 1"] False have r: "n' < int (length (css st))"
      by (auto simp: n'_def)
    show ?thesis
    proof (cases "escaped_loop (css st) n' False")
      case True
      with False * have "string_loop st ig q n' = Inr e" by simp
      with "1.IH" [of n'] False True show ?thesis by (simp add: n'_def)
    next
      case esc: False
      with False * r show ?thesis by simp
    qed
  qed
qed

lemma indexOf_two:
  assumes "indexOf s [a, b] k \<noteq> -1"
  shows "indexOf s [a, b] k + 1 < int (length s)"
proof -
  define m where "m = nat (min (max k 0) (int (length s)))"
  define i where "i = search (starts_with [a, b]) (drop m s) m"
  have eq: "indexOf s [a, b] k = i"
    by (simp add: indexOf_def i_def m_def Let_def)
  from assms eq have ne: "i \<noteq> -1" by simp
  from search_range [of "starts_with [a, b]" "drop m s" m] ne
  have r: "int m \<le> i" "i < int m + int (length (drop m s))"
    by (simp_all add: i_def)
  from search_found [of "starts_with [a, b]" "drop m s" m] ne
  have "starts_with [a, b] (drop (nat i - m) (drop m s))"
    by (simp add: i_def)
  with r have sw: "starts_with [a, b] (drop (nat i) s)"
    by simp
  then have "length (drop (nat i) s) \<ge> 2"
    by (cases "drop (nat i) s"; cases "tl (drop (nat i) s)") auto
  with r show ?thesis unfolding eq by simp
qed


lemma space_extent: "pos st < int (length (css st)) \<Longrightarrow> extent1 st ig (nextToken_space st)"
  using space_loop_le [of "pos st" "css st"]
  by (simp add: extent1_def nextToken_space_def Let_def)

lemma control_extent: "is_control_code (Some c) \<Longrightarrow> extent1 st ig (nextToken_control c st)"
  by (auto simp: extent1_def nextToken_control_def Let_def is_control_code_def control_kinds_def)

lemma paren_extent:
  assumes ok: "spans_ok (interpolations st)" and lt: "pos st < int (length (css st))"
    and p: "nextToken_paren ig st = Some (Inr st1)"
  shows "extent1 st ig st1"
proof (cases "url_mode st")
  case True
  define st0 where "st0 = st\<lparr>buffer := butlast (buffer st)\<rparr>"
  have st0: "css st0 = css st" "pos st0 = pos st" "ignore st0 = ignore st"
    "interpolations st0 = interpolations st"
    by (simp_all add: st0_def)
  from ok have "spans_ok (interpolations st0)" by (simp add: st0)
  from url_loop_total [OF this, of ig "pos st0"] obtain r where
    r0: "url_loop st0 ig (pos st0) = Some r"
       "case r of Inl e \<Rightarrow> e = unclosed st0 ''bracket'' \<and> \<not> (ignore st0 \<or> ig)
        | Inr e \<Rightarrow> (e = pos st0 \<and> (ignore st0 \<or> ig)) \<or>
            (pos st0 + 1 \<le> e \<and> e < int (length (css st0)) \<and>
             charCodeAt (css st0) e = Some CLOSE_PARENTHESES)"
    by blast
  show ?thesis
  proof (cases r)
    case (Inl e)
    with r0 p show ?thesis
      by (simp add: paren_url [OF True] st0_def [symmetric] st0)
  next
    case (Inr e)
    with r0 lt have "e < int (length (css st))" by (auto simp: st0)
    with Inr r0(1) p show ?thesis
      by (auto simp: paren_url [OF True] st0_def [symmetric] st0 extent1_def control_kinds_def)
  qed
next
  case False
  define cand where "cand = indexOf (css st) '')'' (pos st + 1)"
  from indexOf_range [of "css st" "'')''" "pos st + 1"]
  have nx: "cand = -1 \<or> cand < int (length (css st))" by (auto simp: cand_def)
  show ?thesis
  proof (cases "cand = -1 \<or> RE_BAD_BRACKET (slice (css st) (pos st) (cand + 1))")
    case True
    with p show ?thesis
      by (auto simp: paren_normal [OF False] extent1_def cand_def [symmetric] control_kinds_def)
  next
    case bad: False
    with nx p show ?thesis
      by (auto simp: paren_normal [OF False] extent1_def cand_def [symmetric] control_kinds_def)
  qed
qed

lemma quote_extent:
  assumes lt: "pos st < int (length (css st))" and ge: "0 \<le> pos st"
    and q: "nextToken_quote ig c st = Inr st1"
  shows "extent1 st ig st1"
proof -
  define qc where "qc = (if c = SINGLE_QUOTE then SINGLE_QUOTE else DOUBLE_QUOTE)"
  from q obtain e where e: "string_loop st ig qc (pos st) = Inr e"
    and st1: "st1 = st\<lparr>currentToken := Some (Token ''string''
                         (slice (css st) (pos st) (e + 1)) [pos st, e]), pos := e\<rparr>"
    by (auto simp: nextToken_quote_def qc_def [symmetric] split: sum.splits)
  from string_loop_Inr [OF e] consider (found) "e < int (length (css st))"
    | (degrade) "e = pos st + 1" "ignore st \<or> ig" "int (length (css st)) \<le> e"
    by linarith
  then show ?thesis
  proof cases
    case found
    then show ?thesis
      by (simp add: st1 extent1_def control_kinds_def)
  next
    case degrade
    with lt have el: "e = int (length (css st))" by simp
    with degrade(1) ge have "length (slice (css st) (pos st) (e + 1)) = 1"
      by (simp add: slice_take_drop)
    with degrade(2) el show ?thesis
      by (simp add: st1 extent1_def control_kinds_def past_the_end_def)
  qed
qed

lemma at_extent: "pos st < int (length (css st)) \<Longrightarrow> extent1 st ig (nextToken_at st)"
  using test_from_range [of RE_AT_END "css st" "pos st + 1"]
  by (auto simp: extent1_def nextToken_at_def Let_def control_kinds_def)

lemma backslash_run_text:
  assumes c: "charCodeAt s p = Some BACKSLASH"
    and run: "\<forall>i. p < i \<and> i \<le> m \<longrightarrow> charCodeAt s i = Some BACKSLASH"
    and m: "m + 1 = int (length s)" and pm: "p \<le> m" and ev: "even (nat (m - p))"
  shows "odd (length (slice s p (int (length s) + 1))) \<and>
         list_all (\<lambda>c. c = BACKSLASH) (slice s p (int (length s) + 1))"
proof -
  from charCodeAt_Some_range [OF c] have p: "0 \<le> p" "p < int (length s)" by simp_all
  from p m pm have sl: "slice s p (int (length s) + 1) = drop (nat p) s"
    by (simp add: slice_def Let_def)
  have len: "length (drop (nat p) s) = Suc (nat (m - p))"
    using p m pm by simp
  have "drop (nat p) s ! j = BACKSLASH" if "j < length (drop (nat p) s)" for j
  proof -
    from that p have j: "nat p + j < length s" by simp
    have "charCodeAt s (p + int j) = Some BACKSLASH"
    proof (cases "j = 0")
      case True
      with c show ?thesis by simp
    next
      case False
      with j m p have "p < p + int j \<and> p + int j \<le> m" by simp
      with run show ?thesis by blast
    qed
    with j p have "s ! (nat p + j) = BACKSLASH"
      by (simp add: charCodeAt_def nat_add_distrib split: if_splits)
    with that show ?thesis by simp
  qed
  then have "list_all (\<lambda>c. c = BACKSLASH) (drop (nat p) s)"
    unfolding list_all_length by blast
  with len ev show ?thesis
    unfolding sl by simp
qed

lemma backslash_extent:
  assumes c: "charCodeAt (css st) (pos st) = Some BACKSLASH"
  shows "extent1 st ig (nextToken_backslash st)"
proof -
  from charCodeAt_Some_range [OF c] have p: "0 \<le> pos st" "pos st < int (length (css st))"
    by simp_all
  obtain n0 esc where b: "backslash_loop (css st) (pos st) True = (n0, esc)"
    by (cases "backslash_loop (css st) (pos st) True")
  from backslash_loop_spec [OF b] have sp: "pos st \<le> n0"
    "\<forall>i. pos st < i \<and> i \<le> n0 \<longrightarrow> charCodeAt (css st) i = Some BACKSLASH"
    "esc = even (nat (n0 - pos st))"
    by simp_all
  have "charCodeAt (css st) n0 = Some BACKSLASH"
  proof (cases "n0 = pos st")
    case True
    with c show ?thesis by simp
  next
    case False
    with sp(1,2) show ?thesis by simp
  qed
  from charCodeAt_Some_range [OF this] have n0: "n0 < int (length (css st))" by simp
  define code where "code = charCodeAt (css st) (n0 + 1)"
  define esc_ok where "esc_ok \<longleftrightarrow> esc \<and> code \<noteq> Some SLASH \<and> code \<noteq> Some SPACE \<and>
      code \<noteq> Some NEWLINE \<and> code \<noteq> Some TAB \<and> code \<noteq> Some CR \<and> code \<noteq> Some FEED"
  define n2 where "n2 = hex_loop (css st) (n0 + 1)"
  define nx where "nx = (if esc_ok
             then (if RE_HEX_ESCAPE_at (css st) (n0 + 1)
                   then (if charCodeAt (css st) (n2 + 1) = Some SPACE then n2 + 1 else n2)
                   else n0 + 1)
             else n0)"
  have tok: "nextToken_backslash st = st\<lparr>currentToken := Some (Token ''word''
                  (slice (css st) (pos st) (nx + 1)) [pos st, nx]), pos := nx\<rparr>"
    by (simp add: nextToken_backslash_def b Let_def nx_def esc_ok_def code_def n2_def)
  have "nx < int (length (css st)) \<or>
      (nx = int (length (css st)) \<and> nx = n0 + 1 \<and> esc)"
  proof (cases esc_ok)
    case False
    with n0 show ?thesis by (simp add: nx_def)
  next
    case True
    show ?thesis
    proof (cases "RE_HEX_ESCAPE_at (css st) (n0 + 1)")
      case hex: True
      from RE_HEX_ESCAPE_at_range [OF hex] have "n0 + 1 < int (length (css st))" by simp
      from hex_loop_lt [OF this] have n2: "n2 < int (length (css st))" by (simp add: n2_def)
      show ?thesis
      proof (cases "charCodeAt (css st) (n2 + 1) = Some SPACE")
        case sp: True
        from charCodeAt_Some_range [OF sp] True hex show ?thesis by (simp add: nx_def)
      next
        case False
        with True hex n2 show ?thesis by (simp add: nx_def)
      qed
    next
      case False
      with True n0 show ?thesis by (auto simp: nx_def esc_ok_def)
    qed
  qed
  then show ?thesis
  proof
    assume "nx < int (length (css st))"
    then show ?thesis
      by (simp add: tok extent1_def control_kinds_def)
  next
    assume e: "nx = int (length (css st)) \<and> nx = n0 + 1 \<and> esc"
    with sp(3) have ev: "even (nat (n0 - pos st))" by simp
    from e have m: "n0 + 1 = int (length (css st))" by simp
    from backslash_run_text [OF c sp(2) m sp(1) ev] e show ?thesis
      by (simp add: tok extent1_def control_kinds_def past_the_end_def)
  qed
qed

lemma default_extent:
  assumes sit: "spans_in_text st" and lt: "pos st < int (length (css st))"
    and d: "nextToken_default ig code st = Inr st1"
  shows "extent1 st ig st1 \<or>
     (st1 = st \<and> code = Some DOLLAR_SIGN \<and>
      find (\<lambda>item. i_start item = pos st) (interpolations st) = None)"
proof (cases "code = Some DOLLAR_SIGN")
  case True
  show ?thesis
  proof (cases "find (\<lambda>item. i_start item = pos st) (interpolations st)")
    case None
    with True d show ?thesis by (simp add: nextToken_default_def)
  next
    case (Some it)
    from spans_in_textD [OF sit Some] have "i_end it < int (length (css st))" by simp
    with True Some d show ?thesis
      by (auto simp: nextToken_default_def extent1_def Let_def control_kinds_def)
  qed
next
  case nd: False
  show ?thesis
  proof (cases "code = Some SLASH \<and> charCodeAt (css st) (pos st + 1) = Some ASTERISK")
    case True
    define i0 where "i0 = indexOf (css st) ''*/'' (pos st + 2)"
    show ?thesis
    proof (cases "i0 = -1")
      case none: True
      with True nd d show ?thesis
        by (auto simp: nextToken_default_def extent1_def Let_def i0_def [symmetric]
            control_kinds_def past_the_end_def split: if_splits)
    next
      case False
      from indexOf_two [of "css st" ASTERISK SLASH "pos st + 2"] False
      have "i0 + 1 < int (length (css st))" by (simp add: i0_def)
      with False True nd d show ?thesis
        by (auto simp: nextToken_default_def extent1_def Let_def i0_def [symmetric]
            control_kinds_def)
    qed
  next
    case False
    define li where "li = test_from RE_WORD_END (css st) (pos st + 1)"
    define n0 where "n0 = (if li = 0 then int (length (css st)) - 1 else li - 2)"
    from test_from_range [of RE_WORD_END "css st" "pos st + 1"] lt
    have n0: "n0 < int (length (css st))"
      by (auto simp: n0_def li_def)
    show ?thesis
    proof (cases "find (\<lambda>item. pos st \<le> i_start item \<and> i_start item \<le> n0 + 1) (interpolations st)")
      case None
      with nd n0 d show ?thesis
        by (auto simp: nextToken_default_def extent1_def Let_def li_def [symmetric]
            n0_def [symmetric] False control_kinds_def)
    next
      case (Some it)
      from spans_in_textD [OF sit Some] have "i_end it < int (length (css st))" by simp
      with nd Some d show ?thesis
        by (auto simp: nextToken_default_def extent1_def Let_def li_def [symmetric]
            n0_def [symmetric] False control_kinds_def)
    qed
  qed
qed


lemma nextToken_extent:
  assumes ret: "returned st = []" and ge: "0 \<le> pos st" and lt: "pos st < int (length (css st))"
    and sit: "spans_in_text st"
    and nt: "nextToken ig st = Some (Inr (r, st'))"
  shows "(\<exists>t. r = Some t \<and> currentToken st' = Some t \<and> token_extent st ig t st') \<or>
     (charCodeAt (css st) (pos st) = Some DOLLAR_SIGN \<and>
      find (\<lambda>item. i_start item = pos st) (interpolations st) = None \<and>
      r = currentToken st \<and> st' = st\<lparr>pos := pos st + 1\<rparr>)"
proof -
  note ok = spans_in_text_ok [OF sit]
  have fin: "\<exists>t. r = Some t \<and> currentToken st' = Some t \<and> token_extent st ig t st'"
    if "finish (Inr st1) = Inr (r, st')" "scanned st st1" "extent1 st ig st1" for st1
  proof -
    from that(1) have "r = currentToken st1" "st' = st1\<lparr>pos := pos st1 + 1\<rparr>"
      by (simp_all add: finish_def)
    with extent_finish [OF that(2,3)] show ?thesis by auto
  qed
  from ret lt show ?thesis
  proof (cases rule: nextToken_dispatch [where ig = ig])
    case space
    with nt have "finish (Inr (nextToken_space st)) = Inr (r, st')" by simp
    from fin [OF this space_scanned space_extent [OF lt]] show ?thesis ..
  next
    case (control c)
    with nt have "finish (Inr (nextToken_control c st)) = Inr (r, st')" by simp
    from fin [OF this control_scanned [OF control(1)] control_extent [OF control(2)]]
    show ?thesis ..
  next
    case paren
    with nt obtain x where x: "nextToken_paren ig st = Some x" "finish x = Inr (r, st')"
      by auto
    from finish_Inr [OF x(2)] obtain st1 where st1: "x = Inr st1" by blast
    from paren_scanned [OF ok paren(1), where ig = ig] x(1) st1 have "scanned st st1" by auto
    moreover from paren_extent [OF ok lt, of ig st1] x(1) st1 have "extent1 st ig st1" by simp
    ultimately show ?thesis using fin [of st1] x(2) st1 by simp
  next
    case (quote c)
    with nt have f: "finish (nextToken_quote ig c st) = Inr (r, st')" by simp
    from finish_Inr [OF f] obtain st1 where st1: "nextToken_quote ig c st = Inr st1" by blast
    from quote_scanned [where ig = ig and c = c and st = st] st1 have "scanned st st1" by simp
    moreover from quote_extent [OF lt ge st1] have "extent1 st ig st1" .
    ultimately show ?thesis using fin [of st1] f st1 by simp
  next
    case at
    with nt have "finish (Inr (nextToken_at st)) = Inr (r, st')" by simp
    from fin [OF this at_scanned [OF lt] at_extent [OF lt]] show ?thesis ..
  next
    case backslash
    with nt have "finish (Inr (nextToken_backslash st)) = Inr (r, st')" by simp
    from fin [OF this backslash_scanned backslash_extent [OF backslash(1)]] show ?thesis ..
  next
    case default
    define code where "code = charCodeAt (css st) (pos st)"
    from default(4) nt have f: "finish (nextToken_default ig code st) = Inr (r, st')"
      by (simp add: code_def)
    from finish_Inr [OF f] obtain st1 where st1: "nextToken_default ig code st = Inr st1"
      "r = currentToken st1" "st' = st1\<lparr>pos := pos st1 + 1\<rparr>"
      by blast
    from default_scanned [OF ok lt, where ig = ig and code = code] st1(1)
    have sc: "scanned st st1 \<or> (st1 = st \<and> code = Some DOLLAR_SIGN \<and>
              find (\<lambda>item. i_start item = pos st) (interpolations st) = None)"
      by simp
    from default_extent [OF sit lt st1(1)]
    have ex: "extent1 st ig st1 \<or> (st1 = st \<and> code = Some DOLLAR_SIGN \<and>
              find (\<lambda>item. i_start item = pos st) (interpolations st) = None)" .
    show ?thesis
    proof (cases "st1 = st \<and> code = Some DOLLAR_SIGN \<and>
              find (\<lambda>item. i_start item = pos st) (interpolations st) = None")
      case True
      with st1 show ?thesis by (simp add: code_def)
    next
      case False
      with sc ex have "scanned st st1" "extent1 st ig st1" by blast+
      with fin [of st1] f st1(1) show ?thesis by simp
    qed
  qed
qed

text \<open>
  Claim C10, as amended.  A call with an empty pushback stack and the cursor inside the
  text throws (strict mode only), or returns the token it has produced, or, at a dollar
  sign at which no span starts, produces nothing and returns the token of an earlier
  call.  The text of a produced token is the source between the cursor before and after
  the call (\<open>token_extent\<close>).  A \<open>space\<close> token carries no offset.  A single-character
  control token carries one offset, the cursor before the call.  Every other token
  carries two offsets: the start is the cursor before the call, the offset of the first
  character of the token; the end is the offset before the cursor after the call.  The
  end is the offset of the last character of the token, except for the tokens of
  \<open>past_the_end\<close>, whose end is the length of the text, one past its last character: an
  odd run of backslashes that ends the text, and, in the permissive mode, an unclosed
  comment and an unclosed string whose quote is the last character of the text.  The
  spans are offsets inside the text with the start not after the end.
\<close>

theorem C10_token_offsets:
  assumes "returned st = []" and "0 \<le> pos st" and "pos st < int (length (css st))"
    and "spans_in_text st"
  shows "\<exists>res. nextToken ig st = Some res \<and>
     (case res of
        Inl e \<Rightarrow> \<not> (ignore st \<or> ig)
      | Inr (r, st') \<Rightarrow>
          (\<exists>t. r = Some t \<and> currentToken st' = Some t \<and> token_extent st ig t st') \<or>
          (charCodeAt (css st) (pos st) = Some DOLLAR_SIGN \<and>
           find (\<lambda>item. i_start item = pos st) (interpolations st) = None \<and>
           r = currentToken st \<and> st' = st\<lparr>pos := pos st + 1\<rparr>))"
proof -
  from nextToken_step [OF assms(1,3) spans_in_text_ok [OF assms(4)], of ig]
  obtain res where res: "nextToken ig st = Some res"
    "case res of
        Inl e \<Rightarrow> \<not> (ignore st \<or> ig) \<and> (\<exists>what. e = unclosed st what)
      | Inr (r, st') \<Rightarrow>
          (\<exists>st1. st' = st1\<lparr>pos := pos st1 + 1\<rparr> \<and> r = currentToken st1 \<and>
             (scanned st st1 \<or>
              (st1 = st \<and> charCodeAt (css st) (pos st) = Some DOLLAR_SIGN \<and>
               find (\<lambda>item. i_start item = pos st) (interpolations st) = None)))"
    by blast
  show ?thesis
  proof (cases res)
    case (Inl e)
    with res have "nextToken ig st = Some (Inl e)" "\<not> (ignore st \<or> ig)" by simp_all
    then show ?thesis by (intro exI [of _ "Inl e"]) simp
  next
    case (Inr x)
    obtain r st' where x: "x = (r, st')" by (cases x)
    from nextToken_extent [OF assms, of ig r st'] res(1) Inr x show ?thesis
      by simp
  qed
qed

theorem C10_token_offsets_witness:
  "returned (tokenizer ''a;'' False []) = [] \<and>
   spans_in_text (tokenizer ''a;'' False []) \<and>
   (\<exists>st'. nextToken False (tokenizer ''a;'' False []) =
       Some (Inr (Some (Token ''word'' ''a'' [0, 0]), st')) \<and>
     token_extent (tokenizer ''a;'' False []) False (Token ''word'' ''a'' [0, 0]) st' \<and>
     pos st' = 1) \<and>
   (\<exists>st'. nextToken False (tokenizer [BACKSLASH] False []) =
       Some (Inr (Some (Token ''word'' [BACKSLASH] [0, 1]), st')) \<and>
     token_extent (tokenizer [BACKSLASH] False []) False (Token ''word'' [BACKSLASH] [0, 1]) st' \<and>
     pos st' = 2 \<and> past_the_end (tokenizer [BACKSLASH] False []) False (Token ''word'' [BACKSLASH] [0, 1]))"
proof -
  define s1 where "s1 = tokenizer ''a;'' False []"
  define s2 where "s2 = tokenizer [BACKSLASH] False []"
  have h: "returned s1 = []" "0 \<le> pos s1" "pos s1 < int (length (css s1))" "spans_in_text s1"
    "returned s2 = []" "0 \<le> pos s2" "pos s2 < int (length (css s2))" "spans_in_text s2"
    by (simp_all add: s1_def s2_def tokenizer_def spans_in_text_def)
  have d: "charCodeAt (css s1) (pos s1) \<noteq> Some DOLLAR_SIGN"
    "charCodeAt (css s2) (pos s2) \<noteq> Some DOLLAR_SIGN"
    by (simp_all add: s1_def s2_def tokenizer_def charCodeAt_def)
  have t1: "map_option (map_sum id fst) (nextToken False s1) =
      Some (Inr (Some (Token ''word'' ''a'' [0, 0])))"
    unfolding s1_def by code_simp
  have t2: "map_option (map_sum id fst) (nextToken False s2) =
      Some (Inr (Some (Token ''word'' [BACKSLASH] [0, 1])))"
    unfolding s2_def by code_simp
  from t1 obtain st1 where n1: "nextToken False s1 = Some (Inr (Some (Token ''word'' ''a'' [0, 0]), st1))"
    by (cases "nextToken False s1") (auto simp: map_sum_def split: sum.splits)
  from t2 obtain st2 where n2: "nextToken False s2 = Some (Inr (Some (Token ''word'' [BACKSLASH] [0, 1]), st2))"
    by (cases "nextToken False s2") (auto simp: map_sum_def split: sum.splits)
  from C10_token_offsets [OF h(1-4), of False] n1 d(1)
  have e1: "token_extent s1 False (Token ''word'' ''a'' [0, 0]) st1"
    by simp
  from C10_token_offsets [OF h(5-8), of False] n2 d(2)
  have e2: "token_extent s2 False (Token ''word'' [BACKSLASH] [0, 1]) st2"
    by simp
  from e1 have p1: "pos st1 = 1"
    by (simp add: token_extent_def control_kinds_def s1_def tokenizer_def)
  from e2 have p2: "pos st2 = 2"
    by (simp add: token_extent_def control_kinds_def s2_def tokenizer_def)
  have pe: "past_the_end s2 False (Token ''word'' [BACKSLASH] [0, 1])"
    by (simp add: past_the_end_def)
  from h n1 n2 e1 e2 p1 p2 pe show ?thesis
    unfolding s1_def s2_def by blast
qed

text \<open>
  The claim as stated has the end offset inclusive for every token that carries one.  For
  the text that is a single backslash the \<open>word\<close> token has the offsets 0 and 1, and the
  text has no character at offset 1.  With \<open>ignoreErrors\<close>, the unclosed comment of \<open> /*\<close>
  has the offsets 1 and 3 and the unclosed string of \<open>a"\<close> has the offsets 1 and 2, each
  end offset being the length of the text.
\<close>

theorem C10_end_offset_past_the_text:
  "map_option (map_sum id fst) (nextToken False (tokenizer [BACKSLASH] False [])) =
     Some (Inr (Some (Token ''word'' [BACKSLASH] [0, 1]))) \<and>
   charCodeAt [BACKSLASH] 1 = None \<and>
   map_option (map_sum id fst) (drain False [] (tokenizer '' /*'' True [])) =
     Some (Inr [Some (Token ''space'' '' '' []), Some (Token ''comment'' ''/*'' [1, 3])]) \<and>
   charCodeAt '' /*'' 3 = None \<and>
   map_option (map_sum id fst) (drain False [] (tokenizer (''a'' @ [DOUBLE_QUOTE]) True [])) =
     Some (Inr [Some (Token ''word'' ''a'' [0, 0]), Some (Token ''string'' [DOUBLE_QUOTE] [1, 2])]) \<and>
   charCodeAt (''a'' @ [DOUBLE_QUOTE]) 2 = None"
  by code_simp


end
